theory Spec2Isabelle
  imports Main "HOL-Library.Sublist"
begin

section \<open>Python strings\<close>

text \<open>
  A Python \<open>str\<close> is modelled as a \<open>string\<close>, a list of \<open>char\<close>. A \<open>char\<close> stands
  for one code point below 256, so the model covers the texts whose code points lie in
  that range. The braces, the colon and the newline that the program looks for are single
  code points there, as in Python.
\<close>

abbreviation lbrace :: char where "lbrace \<equiv> CHR ''{''"
abbreviation rbrace :: char where "rbrace \<equiv> CHR ''}''"
abbreviation newline :: char where "newline \<equiv> CHR ''\<newline>''"

text \<open>\<open>str.isspace\<close> on one code point below 256, which is what \<open>str.strip()\<close> removes.\<close>

definition isspace :: "char \<Rightarrow> bool" where
  "isspace c =
     (let n = (of_char c :: nat)
      in (9 \<le> n \<and> n \<le> 13) \<or> (28 \<le> n \<and> n \<le> 32) \<or> n = 133 \<or> n = 160)"

text \<open>\<open>s.strip()\<close>\<close>

definition str_strip :: "string \<Rightarrow> string" where
  "str_strip s = rev (dropWhile isspace (rev (dropWhile isspace s)))"

text \<open>\<open>s.lower()\<close>, code point by code point (the upper-case letters below 256).\<close>

definition lower_char :: "char \<Rightarrow> char" where
  "lower_char c =
     (let n = (of_char c :: nat)
      in if (65 \<le> n \<and> n \<le> 90) \<or> (192 \<le> n \<and> n \<le> 222 \<and> n \<noteq> 215)
         then char_of (n + 32) else c)"

definition str_lower :: "string \<Rightarrow> string" where
  "str_lower s = map lower_char s"

text \<open>\<open>s.split(sep)\<close> for a one-character separator: never the empty list.\<close>

fun str_split :: "char \<Rightarrow> string \<Rightarrow> string list" where
  "str_split sep [] = [[]]"
| "str_split sep (c # cs) =
     (if c = sep then [] # str_split sep cs
      else (case str_split sep cs of
              [] \<Rightarrow> [[c]]
            | l # ls \<Rightarrow> (c # l) # ls))"

text \<open>\<open>s.split(sep, 1)\<close>: at most one split, at the first separator.\<close>

definition str_split1 :: "char \<Rightarrow> string \<Rightarrow> string list" where
  "str_split1 sep s =
     (if sep \<in> set s
      then [takeWhile (\<lambda>c. c \<noteq> sep) s, tl (dropWhile (\<lambda>c. c \<noteq> sep) s)]
      else [s])"

text \<open>\<open>sep.join(xs)\<close>\<close>

fun str_join :: "string \<Rightarrow> string list \<Rightarrow> string" where
  "str_join sep [] = []"
| "str_join sep [x] = x"
| "str_join sep (x # y # ys) = x @ sep @ str_join sep (y # ys)"

text \<open>
  \<open>s.replace(old, new)\<close>: the occurrences of \<open>old\<close> are found from the left and do not
  overlap; an empty \<open>old\<close> puts \<open>new\<close> before every character and at the end.
\<close>

function str_replace :: "string \<Rightarrow> string \<Rightarrow> string \<Rightarrow> string" where
  "str_replace [] new s = new @ concat (map (\<lambda>c. c # new) s)"
| "str_replace (a # as) new [] = []"
| "str_replace (a # as) new (c # cs) =
     (if prefix (a # as) (c # cs)
      then new @ str_replace (a # as) new (drop (length as) cs)
      else c # str_replace (a # as) new cs)"
  by pat_completeness auto
termination
  by (relation "measure (\<lambda>(old, new, s). length s)") auto

text \<open>Indexing a list raises \<open>IndexError\<close> out of range.\<close>

datatype py_error = IndexError

definition getitem :: "'a list \<Rightarrow> nat \<Rightarrow> py_error + 'a" where
  "getitem xs i = (if i < length xs then Inr (xs ! i) else Inl IndexError)"

section \<open>Placeholders\<close>

text \<open>
  \<open>re.findall(r'\{([^}]+)\}', text)\<close>: at a \<open>{\<close> the greedy class takes every character up
  to the next \<open>}\<close>; the match succeeds when that run is not empty and a \<open>}\<close> follows it, and
  the search goes on after that \<open>}\<close>. Otherwise the search goes on at the next character.
\<close>

function re_findall :: "string \<Rightarrow> string list" where
  "re_findall [] = []"
| "re_findall (c # cs) =
     (if c = lbrace \<and> takeWhile (\<lambda>x. x \<noteq> rbrace) cs \<noteq> [] \<and> dropWhile (\<lambda>x. x \<noteq> rbrace) cs \<noteq> []
      then takeWhile (\<lambda>x. x \<noteq> rbrace) cs # re_findall (tl (dropWhile (\<lambda>x. x \<noteq> rbrace) cs))
      else re_findall cs)"
  by pat_completeness auto
termination
proof (relation "measure length")
  show "wf (measure length)" by simp
next
  fix c :: char and cs :: string
  have "length (tl (dropWhile (\<lambda>x. x \<noteq> rbrace) cs)) \<le> length cs"
    using length_dropWhile_le [of "\<lambda>x. x \<noteq> rbrace" cs] by simp
  then show "(tl (dropWhile (\<lambda>x. x \<noteq> rbrace) cs), c # cs) \<in> measure length"
    by simp
next
  fix c :: char and cs :: string
  show "(cs, c # cs) \<in> measure length" by simp
qed

text \<open>The loop of \<open>extract_placeholders\<close>, with its \<open>seen\<close> set and its result list.\<close>

fun unique_loop :: "string list \<Rightarrow> string set \<Rightarrow> string list \<Rightarrow> string list" where
  "unique_loop [] seen unique_placeholders = unique_placeholders"
| "unique_loop (ph # phs) seen unique_placeholders =
     (if ph \<notin> seen
      then unique_loop phs (insert ph seen) (unique_placeholders @ [ph])
      else unique_loop phs seen unique_placeholders)"

definition extract_placeholders :: "string \<Rightarrow> string list" where
  "extract_placeholders text = unique_loop (re_findall text) {} []"

text \<open>The f-string \<open>f"{{{placeholder}}}"\<close>: the name between one pair of braces.\<close>

definition token :: "string \<Rightarrow> string" where
  "token placeholder = lbrace # placeholder @ [rbrace]"

text \<open>
  \<open>values\<close> is a Python dict: \<open>values.items()\<close> runs through its pairs in insertion order,
  so it is an association list here (with distinct keys when it comes from a dict).
\<close>

fun replace_placeholders :: "string \<Rightarrow> (string \<times> string) list \<Rightarrow> string" where
  "replace_placeholders result [] = result"
| "replace_placeholders result ((placeholder, v) # items) =
     replace_placeholders (str_replace (token placeholder) v result) items"

section \<open>Subject and body\<close>

text \<open>
  The loop of \<open>extract_subject_and_body\<close> over the lines, with its three variables
  \<open>subject\<close>, \<open>body_lines\<close> and \<open>subject_found\<close>. The index \<open>[1]\<close> into the result of
  \<open>line.split(':', 1)\<close> is the only place that can raise.
\<close>

fun scan_lines ::
  "string list \<Rightarrow> string \<times> string list \<times> bool \<Rightarrow> py_error + (string \<times> string list \<times> bool)" where
  "scan_lines [] st = Inr st"
| "scan_lines (line # lines) (subject, body_lines, subject_found) =
     (if prefix ''subject:'' (str_lower (str_strip line))
      then (case getitem (str_split1 CHR '':'' line) 1 of
              Inl e \<Rightarrow> Inl e
            | Inr r \<Rightarrow> scan_lines lines (str_strip r, body_lines, True))
      else if subject_found
      then scan_lines lines (subject, body_lines @ [line], subject_found)
      else scan_lines lines (subject, body_lines @ [line], subject_found))"

definition extract_subject_and_body :: "string \<Rightarrow> py_error + (string \<times> string)" where
  "extract_subject_and_body content =
     (case scan_lines (str_split newline content) ([], [], False) of
        Inl e \<Rightarrow> Inl e
      | Inr (subject, body_lines, subject_found) \<Rightarrow>
          Inr (subject, str_strip (str_join [newline] body_lines)))"

section \<open>Percent-encoding\<close>

text \<open>
  \<open>urllib.parse.quote(string)\<close> with its default \<open>safe='/'\<close>: the string is encoded as
  UTF-8, and every byte that is not an unreserved character or \<open>/\<close> becomes \<open>%XX\<close> with
  upper-case hexadecimal digits.
\<close>

definition always_safe :: "char \<Rightarrow> bool" where
  "always_safe c =
     (c \<in> set ''ABCDEFGHIJKLMNOPQRSTUVWXYZabcdefghijklmnopqrstuvwxyz0123456789_.-~'')"

definition utf8_encode :: "char \<Rightarrow> nat list" where
  "utf8_encode c =
     (let n = (of_char c :: nat)
      in if n < 128 then [n] else [192 + n div 64, 128 + n mod 64])"

definition hex_digit :: "nat \<Rightarrow> char" where
  "hex_digit n = ''0123456789ABCDEF'' ! (n mod 16)"

definition quote_byte :: "nat \<Rightarrow> string" where
  "quote_byte b =
     (if b < 128 \<and> (always_safe (char_of b) \<or> char_of b = CHR ''/'')
      then [char_of b]
      else [CHR ''%'', hex_digit (b div 16), hex_digit b])"

definition quote :: "string \<Rightarrow> string" where
  "quote s = concat (map quote_byte (concat (map utf8_encode s)))"

section \<open>Deep links\<close>

text \<open>
  \<open>params\<close> is a dict built in a fixed order; \<open>params[k] = v\<close> replaces the value of a
  key that is there and appends a new key at the end.
\<close>

fun dict_set :: "('k \<times> 'v) list \<Rightarrow> 'k \<Rightarrow> 'v \<Rightarrow> ('k \<times> 'v) list" where
  "dict_set [] k v = [(k, v)]"
| "dict_set ((k', v') # kvs) k v =
     (if k' = k then (k, v) # kvs else (k', v') # dict_set kvs k v)"

text \<open>\<open>'&'.join([f"{k}={v}" for k, v in params.items()])\<close>\<close>

definition query_string :: "(string \<times> string) list \<Rightarrow> string" where
  "query_string params = str_join ''&'' (map (\<lambda>(k, v). k @ ''='' @ v) params)"

definition create_outlook_web_link ::
  "string \<Rightarrow> string \<Rightarrow> string \<Rightarrow> string \<Rightarrow> string \<Rightarrow> string" where
  "create_outlook_web_link subject body to cc bcc =
     (let body_encoded = str_replace [newline] ''%0D%0A'' body;
          params = [(''subject'', quote subject), (''body'', body_encoded)];
          params = (if to \<noteq> [] then dict_set params ''to'' (quote to) else params);
          params = (if cc \<noteq> [] then dict_set params ''cc'' (quote cc) else params);
          params = (if bcc \<noteq> [] then dict_set params ''bcc'' (quote bcc) else params)
      in ''https://outlook.office.com/mail/deeplink/compose?'' @ query_string params)"

text \<open>
  A \<open>datetime\<close>, as \<open>datetime.combine\<close> builds it (no time zone, no microseconds here), and
  what the class accepts: a year from 1 to 9999, a month from 1 to 12, a day of that month,
  an hour below 24, a minute and a second below 60.
\<close>

record datetime =
  dt_year :: nat
  dt_month :: nat
  dt_day :: nat
  dt_hour :: nat
  dt_minute :: nat
  dt_second :: nat

definition is_leap :: "nat \<Rightarrow> bool" where
  "is_leap y = (y mod 4 = 0 \<and> (y mod 100 \<noteq> 0 \<or> y mod 400 = 0))"

definition days_in_month :: "nat \<Rightarrow> nat \<Rightarrow> nat" where
  "days_in_month y m =
     (if m = 2 then (if is_leap y then 29 else 28)
      else if m = 4 \<or> m = 6 \<or> m = 9 \<or> m = 11 then 30 else 31)"

definition valid_datetime :: "datetime \<Rightarrow> bool" where
  "valid_datetime d =
     (1 \<le> dt_year d \<and> dt_year d \<le> 9999 \<and> 1 \<le> dt_month d \<and> dt_month d \<le> 12 \<and>
      1 \<le> dt_day d \<and> dt_day d \<le> days_in_month (dt_year d) (dt_month d) \<and>
      dt_hour d < 24 \<and> dt_minute d < 60 \<and> dt_second d < 60)"

text \<open>A number in decimal, without padding, and a string filled with zeros on the left.\<close>

definition digit :: "nat \<Rightarrow> char" where
  "digit n = ''0123456789'' ! (n mod 10)"

function show_nat :: "nat \<Rightarrow> string" where
  "show_nat n = (if n < 10 then [digit n] else show_nat (n div 10) @ [digit (n mod 10)])"
  by pat_completeness auto
termination
  by (relation "measure (\<lambda>n. n)") auto

declare show_nat.simps [simp del]

definition zero_pad :: "nat \<Rightarrow> string \<Rightarrow> string" where
  "zero_pad w s = replicate (w - length s) CHR ''0'' @ s"

text \<open>
  \<open>strftime('%Y-%m-%dT%H:%M:%S')\<close>. The directives go to the C library: \<open>%m\<close>, \<open>%d\<close>,
  \<open>%H\<close>, \<open>%M\<close> and \<open>%S\<close> are two digits, filled with a zero; \<open>%Y\<close> is the year in
  decimal with no filling (glibc), so a year below 1000 has fewer than four digits.
\<close>

definition strftime_iso :: "datetime \<Rightarrow> string" where
  "strftime_iso d =
     show_nat (dt_year d) @ ''-'' @ zero_pad 2 (show_nat (dt_month d)) @ ''-'' @
     zero_pad 2 (show_nat (dt_day d)) @ ''T'' @ zero_pad 2 (show_nat (dt_hour d)) @ '':'' @
     zero_pad 2 (show_nat (dt_minute d)) @ '':'' @ zero_pad 2 (show_nat (dt_second d))"

definition create_calendar_meeting_link ::
  "string \<Rightarrow> string \<Rightarrow> string \<Rightarrow> datetime \<Rightarrow> datetime \<Rightarrow> string \<Rightarrow> string" where
  "create_calendar_meeting_link subject body attendees start_time end_time location =
     (let start_iso = strftime_iso start_time;
          end_iso = strftime_iso end_time;
          html_body = str_replace [newline] ''<br>''
                        (str_replace [newline, newline] ''</p><p>'' body);
          html_body = ''<p>'' @ html_body @ ''</p>'';
          params = [(''subject'', quote subject), (''body'', quote html_body),
                    (''startdt'', quote start_iso), (''enddt'', quote end_iso),
                    (''path'', ''/calendar/action/compose'')];
          params = (if attendees \<noteq> [] then dict_set params ''to'' (quote attendees) else params);
          params = (if location \<noteq> [] then dict_set params ''location'' (quote location)
                    else params)
      in ''https://outlook.office.com/calendar/0/deeplink/compose?'' @ query_string params)"

section \<open>Notions used to state the properties\<close>

text \<open>The position of the first occurrence of \<open>a\<close> in \<open>xs\<close> (the length of \<open>xs\<close> if none).\<close>

definition first_index :: "'a list \<Rightarrow> 'a \<Rightarrow> nat" where
  "first_index xs a = length (takeWhile (\<lambda>x. x \<noteq> a) xs)"

text \<open>
  The timestamp as the specification words it, \<open>YYYY-MM-DDTHH:MM:SS\<close>: fields of fixed
  width, four digits for the year and two for each of the others.
\<close>

definition fixed2 :: "nat \<Rightarrow> string" where
  "fixed2 n = [digit (n div 10), digit n]"

definition fixed4 :: "nat \<Rightarrow> string" where
  "fixed4 n = [digit (n div 1000), digit (n div 100), digit (n div 10), digit n]"

definition iso_8601 :: "datetime \<Rightarrow> string" where
  "iso_8601 d =
     fixed4 (dt_year d) @ ''-'' @ fixed2 (dt_month d) @ ''-'' @ fixed2 (dt_day d) @ ''T'' @
     fixed2 (dt_hour d) @ '':'' @ fixed2 (dt_minute d) @ '':'' @ fixed2 (dt_second d)"

text \<open>
  The body as the specification words it for the mail link: percent-encoded, each newline
  rendered as \<open>%0D%0A\<close>.
\<close>

definition spec_encode_body :: "string \<Rightarrow> string" where
  "spec_encode_body body =
     concat (map (\<lambda>c. if c = newline then ''%0D%0A'' else quote [c]) body)"

text \<open>The test of the parser's loop on one line, and the rest of a line after its first colon.\<close>

definition is_subject_line :: "string \<Rightarrow> bool" where
  "is_subject_line line = prefix ''subject:'' (str_lower (str_strip line))"

definition after_first_colon :: "string \<Rightarrow> string" where
  "after_first_colon line = tl (dropWhile (\<lambda>c. c \<noteq> CHR '':'') line)"

text \<open>
  The parser as the specification words it: the first subject line gives the subject, and
  only that line is left out of the body.
\<close>

fun remove_first_subject_line :: "string list \<Rightarrow> string list" where
  "remove_first_subject_line [] = []"
| "remove_first_subject_line (l # ls) =
     (if is_subject_line l then ls else l # remove_first_subject_line ls)"

definition spec_subject :: "string \<Rightarrow> string" where
  "spec_subject content =
     (case filter is_subject_line (str_split newline content) of
        [] \<Rightarrow> []
      | l # ls \<Rightarrow> str_strip (after_first_colon l))"

definition spec_body :: "string \<Rightarrow> string" where
  "spec_body content =
     str_strip (str_join [newline] (remove_first_subject_line (str_split newline content)))"

text \<open>A string without braces, and a text in which no \<open>{\<close> stands between a \<open>{\<close> and the next \<open>}\<close>.\<close>

definition brace_free :: "string \<Rightarrow> bool" where
  "brace_free s = (lbrace \<notin> set s \<and> rbrace \<notin> set s)"

fun flat :: "string \<Rightarrow> bool" where
  "flat [] = True"
| "flat (c # cs) =
     ((c = lbrace \<and> rbrace \<in> set cs \<longrightarrow> lbrace \<notin> set (takeWhile (\<lambda>x. x \<noteq> rbrace) cs))
      \<and> flat cs)"

text \<open>
  The substitution as the specification words it: one pass over the text from left to
  right; where the token of a mapped name starts, the value of that name is written and the
  token is skipped; every other character is copied. \<open>token_at\<close> finds the first pair of
  the mapping whose token starts the text.
\<close>

fun token_at :: "(string \<times> string) list \<Rightarrow> string \<Rightarrow> (string \<times> string) option" where
  "token_at [] s = None"
| "token_at ((k, x) # v) s = (if prefix (token k) s then Some (k, x) else token_at v s)"

function spec_substitute :: "string \<Rightarrow> (string \<times> string) list \<Rightarrow> string" where
  "spec_substitute [] v = []"
| "spec_substitute (c # cs) v =
     (case token_at v (c # cs) of
        None \<Rightarrow> c # spec_substitute cs v
      | Some (k, x) \<Rightarrow> x @ spec_substitute (drop (Suc (length k)) cs) v)"
  by pat_completeness auto
termination
  by (relation "measure (\<lambda>(s, v). length s)") auto

section \<open>Properties of the placeholder extractor\<close>

lemma re_findall_names:
  "n \<in> set (re_findall s) \<Longrightarrow> n \<noteq> [] \<and> rbrace \<notin> set n"
proof (induction s rule: re_findall.induct)
  case 1
  then show ?case by simp
next
  case (2 c cs)
  then show ?case
    by (auto split: if_splits dest: set_takeWhileD)
qed

lemma first_index_append:
  "first_index (ys @ zs) a =
     (if a \<in> set ys then first_index ys a else length ys + first_index zs a)"
  by (induction ys) (auto simp: first_index_def)

lemma first_index_Cons:
  "first_index (y # zs) a = (if y = a then 0 else Suc (first_index zs a))"
  by (simp add: first_index_def)

lemma first_index_less: "a \<in> set ys \<Longrightarrow> first_index ys a < length ys"
  by (induction ys) (auto simp: first_index_def)

lemma unique_loop_inv:
  "distinct acc \<Longrightarrow>
     distinct (unique_loop xs (set acc) acc) \<and>
     set (unique_loop xs (set acc) acc) = set acc \<union> set xs \<and>
     (\<forall>a \<in> set (acc @ xs). \<forall>b \<in> set (acc @ xs).
        first_index (acc @ xs) a < first_index (acc @ xs) b \<longrightarrow>
        first_index (unique_loop xs (set acc) acc) a
          < first_index (unique_loop xs (set acc) acc) b)"
proof (induction xs arbitrary: acc)
  case Nil
  then show ?case by simp
next
  case (Cons x xs)
  show ?case
  proof (cases "x \<in> set acc")
    case False
    then have d: "distinct (acc @ [x])" using Cons.prems by simp
    have s: "insert x (set acc) = set (acc @ [x])" by simp
    show ?thesis using Cons.IH [OF d] False
      unfolding unique_loop.simps s by simp
  next
    case True
    have fi: "\<And>a. first_index (acc @ x # xs) a =
      (if a \<in> set acc then first_index (acc @ xs) a else Suc (first_index (acc @ xs) a))"
      using True by (auto simp: first_index_append first_index_Cons)
    have lt: "\<And>a. a \<in> set acc \<Longrightarrow> first_index (acc @ xs) a < length acc"
      by (simp add: first_index_append first_index_less)
    have ge: "\<And>a. a \<notin> set acc \<Longrightarrow> length acc \<le> first_index (acc @ xs) a"
      by (simp add: first_index_append)
    have st: "set (acc @ x # xs) = set (acc @ xs)" using True by auto
    from Cons.IH [OF Cons.prems] True show ?thesis
      unfolding st
      apply (simp only: unique_loop.simps if_False simp_thms)
      apply (intro conjI)
        apply simp
       apply auto[1]
      apply (intro ballI impI)
      subgoal for a b
        using fi[of a] fi[of b] lt[of a] lt[of b] ge[of a] ge[of b]
        by (auto split: if_splits)
      done
  qed
qed

lemma set_extract_placeholders:
  "set (extract_placeholders text) = set (re_findall text)"
  using unique_loop_inv [of "[]" "re_findall text"]
  by (simp add: extract_placeholders_def)

text \<open>
  C10: every name that \<open>extract_placeholders\<close> returns is a non-empty string, so the
  substring \<open>{}\<close> never contributes a placeholder.
\<close>

theorem extract_placeholders_nonempty:
  "n \<in> set (extract_placeholders text) \<Longrightarrow> n \<noteq> []"
  using re_findall_names [of n "text"] by (simp add: set_extract_placeholders)

theorem extract_placeholders_nonempty_witness:
  "''a'' \<in> set (extract_placeholders ''{}x{a}'') \<and> ''a'' \<noteq> []"
proof -
  have h: "''a'' \<in> set (extract_placeholders ''{}x{a}'')"
    by (simp add: extract_placeholders_def)
  from extract_placeholders_nonempty [OF h] h show ?thesis by simp
qed

text \<open>
  C6, as stated, fails: the name class of the pattern excludes only the closing brace, so
  the text \<open>{{a}\<close> yields the name \<open>{a\<close>, which contains an opening brace.
\<close>

theorem extract_placeholders_brace_counterexample:
  "''{a'' \<in> set (extract_placeholders ''{{a}'') \<and> lbrace \<in> set ''{a''"
  by (simp add: extract_placeholders_def)

text \<open>
  C6, amended: for every input text, every placeholder name returned by
  \<open>extract_placeholders\<close> contains no closing brace.
\<close>

theorem extract_placeholders_no_rbrace:
  "n \<in> set (extract_placeholders text) \<Longrightarrow> rbrace \<notin> set n"
  using re_findall_names [of n "text"] by (simp add: set_extract_placeholders)

theorem extract_placeholders_no_rbrace_witness:
  "''{a'' \<in> set (extract_placeholders ''{{a}'') \<and> rbrace \<notin> set ''{a''"
proof -
  have h: "''{a'' \<in> set (extract_placeholders ''{{a}'')"
    by (simp add: extract_placeholders_def)
  from extract_placeholders_no_rbrace [OF h] h show ?thesis by simp
qed

text \<open>
  C9: the result of \<open>extract_placeholders\<close> has no repeated name, holds exactly the names
  the pattern matches, and lists them in the order of their first occurrences; on the text
  of the example it returns \<open>Name\<close>, then \<open>Role\<close>.
\<close>

theorem extract_placeholders_first_occurrence_order:
  "distinct (extract_placeholders text) \<and>
   set (extract_placeholders text) = set (re_findall text) \<and>
   (\<forall>a \<in> set (re_findall text). \<forall>b \<in> set (re_findall text).
      first_index (re_findall text) a < first_index (re_findall text) b \<longrightarrow>
      first_index (extract_placeholders text) a < first_index (extract_placeholders text) b) \<and>
   extract_placeholders ''Hi {Name}, re {Name} and {Role}'' = [''Name'', ''Role'']"
proof -
  have ex: "extract_placeholders ''Hi {Name}, re {Name} and {Role}'' = [''Name'', ''Role'']"
    by (simp add: extract_placeholders_def)
  show ?thesis
    using unique_loop_inv [of "[]" "re_findall text"] ex
    by (simp add: extract_placeholders_def)
qed

theorem extract_placeholders_first_occurrence_order_witness:
  "re_findall ''{b}{a}{b}'' = [''b'', ''a'', ''b''] \<and>
   extract_placeholders ''{b}{a}{b}'' = [''b'', ''a''] \<and>
   first_index (re_findall ''{b}{a}{b}'') ''b'' < first_index (re_findall ''{b}{a}{b}'') ''a'' \<and>
   first_index (extract_placeholders ''{b}{a}{b}'') ''b''
     < first_index (extract_placeholders ''{b}{a}{b}'') ''a''"
proof -
  have m: "re_findall ''{b}{a}{b}'' = [''b'', ''a'', ''b'']" by simp
  have r: "extract_placeholders ''{b}{a}{b}'' = [''b'', ''a'']"
    by (simp add: extract_placeholders_def)
  have lt: "first_index (re_findall ''{b}{a}{b}'') ''b''
      < first_index (re_findall ''{b}{a}{b}'') ''a''"
    by (simp add: m first_index_def)
  from extract_placeholders_first_occurrence_order [of "''{b}{a}{b}''"] lt
  have "first_index (extract_placeholders ''{b}{a}{b}'') ''b''
      < first_index (extract_placeholders ''{b}{a}{b}'') ''a''"
    by (simp add: m)
  with m r lt show ?thesis by simp
qed

section \<open>Properties of the deep links\<close>

lemma create_outlook_web_link_shape:
  "create_outlook_web_link subject body to cc bcc =
     ''https://outlook.office.com/mail/deeplink/compose?'' @
     ''subject='' @ quote subject @
     ''&body='' @ str_replace [newline] ''%0D%0A'' body @
     (if to \<noteq> [] then ''&to='' @ quote to else []) @
     (if cc \<noteq> [] then ''&cc='' @ quote cc else []) @
     (if bcc \<noteq> [] then ''&bcc='' @ quote bcc else [])"
  by (simp add: create_outlook_web_link_def Let_def query_string_def)

text \<open>
  C1: the mail link is to carry the body percent-encoded. The code replaces the newlines of
  the body and nothing else: on the body \<open>a&b\<close> the ampersand goes into the link as it is,
  where the encoding of the specification gives \<open>a%26b\<close>.
\<close>

theorem create_outlook_web_link_body_not_encoded:
  "create_outlook_web_link ''Hi'' ''a&b'' [] [] [] =
     ''https://outlook.office.com/mail/deeplink/compose?subject=Hi&body=a&b'' \<and>
   spec_encode_body ''a&b'' = ''a%26b''"
  by code_simp

subsection \<open>Timestamps\<close>

lemma digit_mod: "digit (n mod 10) = digit n"
  by (simp add: digit_def)

lemma show_nat_1: "n < 10 \<Longrightarrow> show_nat n = [digit n]"
  by (simp add: show_nat.simps)

lemma show_nat_2: "10 \<le> n \<Longrightarrow> n < 100 \<Longrightarrow> show_nat n = [digit (n div 10), digit n]"
  by (subst show_nat.simps) (simp add: show_nat_1 digit_mod)

lemma show_nat_3:
  "100 \<le> n \<Longrightarrow> n < 1000 \<Longrightarrow> show_nat n = [digit (n div 100), digit (n div 10), digit n]"
  by (subst show_nat.simps) (simp add: show_nat_2 digit_mod div_mult2_eq [symmetric])

lemma show_nat_4: "1000 \<le> n \<Longrightarrow> n \<le> 9999 \<Longrightarrow> show_nat n = fixed4 n"
  unfolding fixed4_def
  by (subst show_nat.simps) (simp add: show_nat_3 digit_mod div_mult2_eq [symmetric])

lemma zero_pad_2: "n < 100 \<Longrightarrow> zero_pad 2 (show_nat n) = fixed2 n"
proof (cases "n < 10")
  case True
  then have "n div 10 = 0" by simp
  with True show ?thesis
    by (simp add: show_nat_1 zero_pad_def fixed2_def digit_def)
next
  case False
  assume "n < 100"
  with False show ?thesis by (simp add: show_nat_2 zero_pad_def fixed2_def)
qed

lemma days_in_month_le: "days_in_month y m \<le> 31"
  by (simp add: days_in_month_def)

lemma strftime_iso_fixed:
  assumes "valid_datetime d" "1000 \<le> dt_year d"
  shows "strftime_iso d = iso_8601 d"
proof -
  from assms have y: "show_nat (dt_year d) = fixed4 (dt_year d)"
    by (simp add: valid_datetime_def show_nat_4)
  from assms(1) have "dt_day d \<le> 31"
    using days_in_month_le [of "dt_year d" "dt_month d"] by (simp add: valid_datetime_def)
  with assms(1) have "dt_month d < 100" "dt_day d < 100" "dt_hour d < 100"
    "dt_minute d < 100" "dt_second d < 100" by (simp_all add: valid_datetime_def)
  with y show ?thesis by (simp add: strftime_iso_def iso_8601_def zero_pad_2)
qed

subsection \<open>The calendar link\<close>

lemma create_calendar_meeting_link_eq:
  "create_calendar_meeting_link subject body attendees start_time end_time location =
     ''https://outlook.office.com/calendar/0/deeplink/compose?'' @
     ''subject='' @ quote subject @
     ''&body='' @ quote (''<p>'' @ str_replace [newline] ''<br>''
                          (str_replace [newline, newline] ''</p><p>'' body) @ ''</p>'') @
     ''&startdt='' @ quote (strftime_iso start_time) @
     ''&enddt='' @ quote (strftime_iso end_time) @
     ''&path=/calendar/action/compose'' @
     (if attendees \<noteq> [] then ''&to='' @ quote attendees else []) @
     (if location \<noteq> [] then ''&location='' @ quote location else [])"
  by (simp add: create_calendar_meeting_link_def Let_def query_string_def)

text \<open>
  C2, as stated, fails: the value of \<open>path\<close> goes into the link as the literal
  \<open>/calendar/action/compose\<close>, with its slashes, not as \<open>%2Fcalendar%2Faction%2Fcompose\<close>;
  and the year of a timestamp is not filled to four digits, so the valid \<open>datetime\<close> of the
  year 999 is printed \<open>999-01-02T03:04:05\<close>.
\<close>

theorem create_calendar_meeting_link_path_counterexample:
  "create_calendar_meeting_link ''S'' ''b'' []
     \<lparr>dt_year = 2025, dt_month = 3, dt_day = 4, dt_hour = 10, dt_minute = 0, dt_second = 0\<rparr>
     \<lparr>dt_year = 2025, dt_month = 3, dt_day = 4, dt_hour = 11, dt_minute = 0, dt_second = 0\<rparr> [] =
   ''https://outlook.office.com/calendar/0/deeplink/compose?subject=S&body=%3Cp%3Eb%3C/p%3E&startdt=2025-03-04T10%3A00%3A00&enddt=2025-03-04T11%3A00%3A00&path=/calendar/action/compose'' \<and>
   \<not> sublist ''path=%2Fcalendar%2Faction%2Fcompose''
     ''https://outlook.office.com/calendar/0/deeplink/compose?subject=S&body=%3Cp%3Eb%3C/p%3E&startdt=2025-03-04T10%3A00%3A00&enddt=2025-03-04T11%3A00%3A00&path=/calendar/action/compose'' \<and>
   valid_datetime
     \<lparr>dt_year = 999, dt_month = 1, dt_day = 2, dt_hour = 3, dt_minute = 4, dt_second = 5\<rparr> \<and>
   strftime_iso
     \<lparr>dt_year = 999, dt_month = 1, dt_day = 2, dt_hour = 3, dt_minute = 4, dt_second = 5\<rparr> =
   ''999-01-02T03:04:05''"
  by code_simp

text \<open>
  C2, amended: for every subject, body, attendees and location, and every valid start and
  end \<open>datetime\<close> whose year has four digits, \<open>create_calendar_meeting_link\<close> returns the
  fixed base followed by the parameters \<open>subject\<close>, \<open>body\<close> (the body turned into HTML, then
  percent-encoded), \<open>startdt\<close> and \<open>enddt\<close> (the percent-encoded timestamps
  \<open>YYYY-MM-DDTHH:MM:SS\<close>), \<open>path\<close> with the literal value \<open>/calendar/action/compose\<close>, then
  \<open>to\<close> if the attendees are not empty and \<open>location\<close> if the location is not empty.
\<close>

theorem create_calendar_meeting_link_shape:
  assumes "valid_datetime start_time" "1000 \<le> dt_year start_time"
    and "valid_datetime end_time" "1000 \<le> dt_year end_time"
  shows "create_calendar_meeting_link subject body attendees start_time end_time location =
     ''https://outlook.office.com/calendar/0/deeplink/compose?'' @
     ''subject='' @ quote subject @
     ''&body='' @ quote (''<p>'' @ str_replace [newline] ''<br>''
                          (str_replace [newline, newline] ''</p><p>'' body) @ ''</p>'') @
     ''&startdt='' @ quote (iso_8601 start_time) @
     ''&enddt='' @ quote (iso_8601 end_time) @
     ''&path=/calendar/action/compose'' @
     (if attendees \<noteq> [] then ''&to='' @ quote attendees else []) @
     (if location \<noteq> [] then ''&location='' @ quote location else [])"
  unfolding create_calendar_meeting_link_eq
    strftime_iso_fixed [OF assms(1,2)] strftime_iso_fixed [OF assms(3,4)] ..

theorem create_calendar_meeting_link_shape_witness:
  "create_calendar_meeting_link ''S'' ''b'' ''x@y.com''
     \<lparr>dt_year = 2025, dt_month = 3, dt_day = 4, dt_hour = 10, dt_minute = 0, dt_second = 0\<rparr>
     \<lparr>dt_year = 2025, dt_month = 3, dt_day = 4, dt_hour = 11, dt_minute = 0, dt_second = 0\<rparr>
     ''Zoom'' =
   ''https://outlook.office.com/calendar/0/deeplink/compose?subject=S&body=%3Cp%3Eb%3C/p%3E&startdt=2025-03-04T10%3A00%3A00&enddt=2025-03-04T11%3A00%3A00&path=/calendar/action/compose&to=x%40y.com&location=Zoom''"
proof -
  let ?s = "\<lparr>dt_year = 2025, dt_month = 3, dt_day = 4, dt_hour = 10, dt_minute = 0,
    dt_second = 0\<rparr>"
  let ?e = "\<lparr>dt_year = 2025, dt_month = 3, dt_day = 4, dt_hour = 11, dt_minute = 0,
    dt_second = 0\<rparr>"
  have vs: "valid_datetime ?s" by code_simp
  have ve: "valid_datetime ?e" by code_simp
  have ys: "1000 \<le> dt_year ?s" by simp
  have ye: "1000 \<le> dt_year ?e" by simp
  have "''https://outlook.office.com/calendar/0/deeplink/compose?'' @
     ''subject='' @ quote ''S'' @
     ''&body='' @ quote (''<p>'' @ str_replace [newline] ''<br>''
                          (str_replace [newline, newline] ''</p><p>'' ''b'') @ ''</p>'') @
     ''&startdt='' @ quote (iso_8601 ?s) @
     ''&enddt='' @ quote (iso_8601 ?e) @
     ''&path=/calendar/action/compose'' @
     (if ''x@y.com'' \<noteq> [] then ''&to='' @ quote ''x@y.com'' else []) @
     (if ''Zoom'' \<noteq> [] then ''&location='' @ quote ''Zoom'' else []) =
   ''https://outlook.office.com/calendar/0/deeplink/compose?subject=S&body=%3Cp%3Eb%3C/p%3E&startdt=2025-03-04T10%3A00%3A00&enddt=2025-03-04T11%3A00%3A00&path=/calendar/action/compose&to=x%40y.com&location=Zoom''"
    by code_simp
  then show ?thesis
    by (simp only: create_calendar_meeting_link_shape [OF vs ys ve ye])
qed

section \<open>Properties of the template parser\<close>

lemma lower_char_colon: "lower_char c = CHR '':'' \<Longrightarrow> c = CHR '':''"
  by (auto simp: lower_char_def Let_def split: if_splits
        dest!: arg_cong [where f = "of_char :: char \<Rightarrow> nat"])

lemma set_str_strip: "set (str_strip s) \<subseteq> set s"
  unfolding str_strip_def
  by (metis set_dropWhileD set_rev subsetI)

lemma subject_line_has_colon:
  assumes "is_subject_line line"
  shows "CHR '':'' \<in> set line"
proof -
  from assms obtain zs where "str_lower (str_strip line) = ''subject:'' @ zs"
    by (auto simp: is_subject_line_def prefix_def)
  then have "CHR '':'' \<in> set (str_lower (str_strip line))" by simp
  then obtain c where "c \<in> set (str_strip line)" "lower_char c = CHR '':''"
    by (auto simp: str_lower_def)
  then show ?thesis using lower_char_colon set_str_strip by blast
qed

lemma getitem_split1:
  "is_subject_line line \<Longrightarrow>
     getitem (str_split1 CHR '':'' line) 1 = Inr (after_first_colon line)"
  by (simp add: getitem_def str_split1_def after_first_colon_def subject_line_has_colon)

lemma scan_lines_eq:
  "scan_lines lines (subject, body_lines, subject_found) =
     Inr (if filter is_subject_line lines = [] then subject
          else str_strip (after_first_colon (last (filter is_subject_line lines))),
          body_lines @ filter (\<lambda>l. \<not> is_subject_line l) lines,
          subject_found \<or> filter is_subject_line lines \<noteq> [])"
proof (induction lines arbitrary: subject body_lines subject_found)
  case Nil
  then show ?case by simp
next
  case (Cons line lines)
  show ?case
  proof (cases "is_subject_line line")
    case True
    then have p: "prefix ''subject:'' (str_lower (str_strip line))"
      by (simp add: is_subject_line_def)
    show ?thesis
      using True Cons.IH [of "str_strip (after_first_colon line)" body_lines True]
      by (simp only: scan_lines.simps p if_True getitem_split1 [OF True] sum.case) simp
  next
    case False
    then have p: "\<not> prefix ''subject:'' (str_lower (str_strip line))"
      by (simp add: is_subject_line_def)
    show ?thesis
      using False Cons.IH [of subject "body_lines @ [line]" subject_found]
      by (simp only: scan_lines.simps p if_False if_cancel) simp
  qed
qed

lemma extract_subject_and_body_eq:
  "extract_subject_and_body content =
     Inr (if filter is_subject_line (str_split newline content) = [] then []
          else str_strip (after_first_colon
                 (last (filter is_subject_line (str_split newline content)))),
          str_strip (str_join [newline]
            (filter (\<lambda>l. \<not> is_subject_line l) (str_split newline content))))"
  by (simp add: extract_subject_and_body_def scan_lines_eq)

text \<open>
  C3: the subject is to come from the first subject line, and only that line is to be left
  out of the body. The loop sets \<open>subject_found\<close> but tests every line for the marker all
  the same, and its two other branches do the same thing: on a text with two subject lines
  the second one overwrites the subject and is dropped from the body, so the text \<open>A\<close> of
  the first is in neither, where the specification gives the subject \<open>A\<close> and keeps the
  second line in the body.
\<close>

theorem extract_subject_and_body_second_subject_line:
  "extract_subject_and_body ''Subject: A\<newline>Subject: B\<newline>x'' = Inr (''B'', ''x'') \<and>
   spec_subject ''Subject: A\<newline>Subject: B\<newline>x'' = ''A'' \<and>
   spec_body ''Subject: A\<newline>Subject: B\<newline>x'' = ''Subject: B\<newline>x''"
  by code_simp

section \<open>Properties of the placeholder substitutor\<close>

subsection \<open>Flat texts and one replacement\<close>

lemma flat_append_free: "lbrace \<notin> set m \<Longrightarrow> flat (m @ s) = flat s"
  by (induction m) auto

lemma flat_drop: "flat s \<Longrightarrow> flat (drop n s)"
proof (induction s arbitrary: n)
  case Nil
  then show ?case by simp
next
  case (Cons c cs)
  then show ?case by (cases n) auto
qed

lemma split_at_rbrace:
  "rbrace \<in> set cs \<Longrightarrow>
     cs = takeWhile (\<lambda>x. x \<noteq> rbrace) cs @ rbrace # tl (dropWhile (\<lambda>x. x \<noteq> rbrace) cs)"
proof -
  assume "rbrace \<in> set cs"
  then have "dropWhile (\<lambda>x. x \<noteq> rbrace) cs \<noteq> []" by (simp add: dropWhile_eq_Nil_conv)
  then have "dropWhile (\<lambda>x. x \<noteq> rbrace) cs =
      rbrace # tl (dropWhile (\<lambda>x. x \<noteq> rbrace) cs)"
    using hd_dropWhile [of "\<lambda>x. x \<noteq> rbrace" cs]
    by (cases "dropWhile (\<lambda>x. x \<noteq> rbrace) cs") auto
  then show ?thesis
    using takeWhile_dropWhile_id [of "\<lambda>x. x \<noteq> rbrace" cs] by simp
qed

lemma names_flat:
  "\<forall>n \<in> set (re_findall s). lbrace \<notin> set n \<Longrightarrow> flat s"
proof (induction s rule: re_findall.induct)
  case 1
  then show ?case by simp
next
  case (2 c cs)
  let ?run = "takeWhile (\<lambda>x. x \<noteq> rbrace) cs"
  let ?rest = "dropWhile (\<lambda>x. x \<noteq> rbrace) cs"
  show ?case
  proof (cases "c = lbrace \<and> ?run \<noteq> [] \<and> ?rest \<noteq> []")
    case True
    with "2.prems" have free: "lbrace \<notin> set ?run" and
      tl: "\<forall>n \<in> set (re_findall (tl ?rest)). lbrace \<notin> set n" by auto
    from "2.IH"(1) [OF True tl] have ft: "flat (tl ?rest)" .
    from True have "rbrace \<in> set cs" by (auto simp: dropWhile_eq_Nil_conv)
    from split_at_rbrace [OF this] have cs: "cs = ?run @ rbrace # tl ?rest" .
    have "flat (?run @ rbrace # tl ?rest)"
      using ft free by (simp add: flat_append_free)
    with cs have "flat cs" by simp
    with free show ?thesis by simp
  next
    case False
    with "2.prems" have "\<forall>n \<in> set (re_findall cs). lbrace \<notin> set n" by auto
    from "2.IH"(2) [OF False this] have fc: "flat cs" .
    show ?thesis
    proof (cases "c = lbrace \<and> rbrace \<in> set cs")
      case True
      with False have "?run = []" by (auto simp: dropWhile_eq_Nil_conv)
      with fc show ?thesis by simp
    next
      case False
      with fc show ?thesis by auto
    qed
  qed
qed

lemma set_str_replace:
  "old \<noteq> [] \<Longrightarrow> set (str_replace old v s) \<subseteq> set s \<union> set v"
proof (induction old v s rule: str_replace.induct)
  case (1 new s)
  then show ?case by simp
next
  case (2 a as new)
  then show ?case by simp
next
  case (3 a as new c cs)
  show ?case
  proof (cases "prefix (a # as) (c # cs)")
    case True
    have "set (drop (length as) cs) \<subseteq> set cs" by (rule set_drop_subset)
    with True "3.IH"(1) show ?thesis by auto
  next
    case False
    with "3.IH"(2) show ?thesis by auto
  qed
qed

lemma str_replace_skip:
  "old \<noteq> [] \<Longrightarrow> hd old = lbrace \<Longrightarrow> lbrace \<notin> set m \<Longrightarrow>
     str_replace old v (m @ s) = m @ str_replace old v s"
proof (induction m)
  case Nil
  then show ?case by simp
next
  case (Cons c m)
  then obtain a as where old: "old = a # as" by (cases old) auto
  with Cons.prems have "a = lbrace" by simp
  with Cons.prems old have "\<not> prefix (a # as) (c # (m @ s))" by auto
  with Cons old show ?case by simp
qed

lemma str_replace_run:
  assumes "old \<noteq> []" "hd old = lbrace" "lbrace \<notin> set m"
  shows "str_replace old v (m @ rbrace # w) = m @ rbrace # str_replace old v w"
proof -
  from assms obtain as where old: "old = lbrace # as" by (cases old) auto
  have "str_replace old v (rbrace # w) = rbrace # str_replace old v w"
    by (simp add: old)
  with str_replace_skip [OF assms] show ?thesis by simp
qed

lemma takeWhile_run:
  "rbrace \<notin> set m \<Longrightarrow> takeWhile (\<lambda>x. x \<noteq> rbrace) (m @ rbrace # w) = m"
  by (induction m) auto

lemma run_unique:
  assumes "rbrace \<notin> set n" "rbrace \<notin> set m" "prefix (n @ [rbrace]) (m @ rbrace # w)"
  shows "n = m"
proof -
  from assms(3) obtain z where "m @ rbrace # w = n @ rbrace # z"
    by (auto simp: prefix_def)
  then have "takeWhile (\<lambda>x. x \<noteq> rbrace) (m @ rbrace # w) =
             takeWhile (\<lambda>x. x \<noteq> rbrace) (n @ rbrace # z)" by simp
  with assms(1,2) show ?thesis by (simp add: takeWhile_run)
qed

lemma sublist_skip:
  "sublist (lbrace # x) (m @ y) \<Longrightarrow> lbrace \<notin> set m \<Longrightarrow> sublist (lbrace # x) y"
proof (induction m)
  case Nil
  then show ?case by simp
next
  case (Cons c m)
  then show ?case by (auto simp: sublist_Cons_right)
qed

lemma token_inj: "token a = token b \<Longrightarrow> a = b"
  by (simp add: token_def)

lemma flat_head_run:
  assumes "flat (lbrace # cs)" "rbrace \<in> set cs"
  shows "\<exists>m w. cs = m @ rbrace # w \<and> lbrace \<notin> set m \<and> rbrace \<notin> set m"
proof -
  let ?m = "takeWhile (\<lambda>x. x \<noteq> rbrace) cs"
  from assms have "lbrace \<notin> set ?m" by simp
  moreover have "rbrace \<notin> set ?m" by (auto dest: set_takeWhileD)
  moreover note split_at_rbrace [OF assms(2)]
  ultimately show ?thesis by blast
qed

lemma str_replace_step:
  assumes "old \<noteq> []" "hd old = lbrace" "flat s" "lbrace \<notin> set v" "rbrace \<notin> set v"
  shows "flat (str_replace old v s) \<and>
         (\<forall>n. rbrace \<notin> set n \<longrightarrow> sublist (token n) (str_replace old v s) \<longrightarrow>
              sublist (token n) s \<and> token n \<noteq> old)"
  using assms
proof (induction old v s rule: str_replace.induct)
  case (1 new s)
  then show ?case by simp
next
  case (2 a as new)
  then show ?case by (simp add: token_def)
next
  case (3 a as new c cs)
  from "3.prems" have a: "a = lbrace" by simp
  from "3.prems" have fcs: "flat cs" by simp
  show ?case
  proof (cases "prefix (a # as) (c # cs)")
    case True
    let ?rest = "drop (length as) cs"
    let ?r = "str_replace (a # as) new ?rest"
    have res: "str_replace (a # as) new (c # cs) = new @ ?r"
      using True by (simp only: str_replace.simps if_True)
    have "flat ?rest" using fcs by (rule flat_drop)
    from "3.IH"(1) [OF True "3.prems"(1,2) this "3.prems"(4,5)]
    have fr: "flat ?r" and
      sub: "\<And>n. rbrace \<notin> set n \<Longrightarrow> sublist (token n) ?r \<Longrightarrow>
              sublist (token n) ?rest \<and> token n \<noteq> a # as" by auto
    have f: "flat (new @ ?r)" using fr "3.prems"(4) by (simp add: flat_append_free)
    have "sublist (token n) (c # cs) \<and> token n \<noteq> a # as"
      if n: "rbrace \<notin> set n" and s: "sublist (token n) (new @ ?r)" for n
    proof -
      from s "3.prems"(4) have "sublist (token n) ?r"
        unfolding token_def by (rule sublist_skip)
      from sub [OF n this] have 1: "sublist (token n) ?rest" and 2: "token n \<noteq> a # as"
        by auto
      have "sublist ?rest cs" by (rule sublist_drop)
      with 1 have "sublist (token n) cs" by (rule sublist_order.order_trans)
      then have "sublist (token n) (c # cs)" by (simp add: sublist_Cons_right)
      with 2 show ?thesis by simp
    qed
    with f show ?thesis unfolding res by blast
  next
    case False
    let ?r = "str_replace (a # as) new cs"
    have res: "str_replace (a # as) new (c # cs) = c # ?r"
      using False by (simp only: str_replace.simps if_False)
    from "3.IH"(2) [OF False "3.prems"(1,2) fcs "3.prems"(4,5)]
    have fr: "flat ?r" and
      sub: "\<And>n. rbrace \<notin> set n \<Longrightarrow> sublist (token n) ?r \<Longrightarrow>
              sublist (token n) cs \<and> token n \<noteq> a # as" by auto
    have shape: "\<exists>m w. cs = m @ rbrace # w \<and> ?r = m @ rbrace # str_replace (a # as) new w \<and>
        lbrace \<notin> set m \<and> rbrace \<notin> set m"
      if c: "c = lbrace" and r: "rbrace \<in> set ?r"
    proof -
      from r set_str_replace [of "a # as" new cs] "3.prems"(5) have "rbrace \<in> set cs" by auto
      with "3.prems"(3) c obtain m w where
        cs: "cs = m @ rbrace # w" and m: "lbrace \<notin> set m" "rbrace \<notin> set m"
        using flat_head_run by blast
      from str_replace_run [OF "3.prems"(1,2) m(1)]
      have "str_replace (a # as) new (m @ rbrace # w) = m @ rbrace # str_replace (a # as) new w" .
      with cs m show ?thesis by blast
    qed
    have f: "flat (c # ?r)"
    proof -
      have "lbrace \<notin> set (takeWhile (\<lambda>x. x \<noteq> rbrace) ?r)"
        if "c = lbrace" "rbrace \<in> set ?r"
      proof -
        from shape [OF that] obtain m w where
          "?r = m @ rbrace # str_replace (a # as) new w" "lbrace \<notin> set m" "rbrace \<notin> set m"
          by blast
        then show ?thesis by (simp add: takeWhile_run)
      qed
      with fr show ?thesis by auto
    qed
    have "sublist (token n) (c # cs) \<and> token n \<noteq> a # as"
      if n: "rbrace \<notin> set n" and s: "sublist (token n) (c # ?r)" for n
    proof -
      from s consider "prefix (token n) (c # ?r)" | "sublist (token n) ?r"
        by (auto simp: sublist_Cons_right)
      then show ?thesis
      proof cases
        case 1
        then have c: "c = lbrace" and p: "prefix (n @ [rbrace]) ?r"
          by (auto simp: token_def)
        from p have "rbrace \<in> set ?r" by (auto simp: prefix_def)
        from shape [OF c this] obtain m w where
          cs: "cs = m @ rbrace # w" and
          r: "?r = m @ rbrace # str_replace (a # as) new w" and
          m: "lbrace \<notin> set m" "rbrace \<notin> set m" by blast
        from p r have "prefix (n @ [rbrace]) (m @ rbrace # str_replace (a # as) new w)" by simp
        from run_unique [OF n m(2) this] have nm: "n = m" .
        have pre: "prefix (token n) (c # cs)"
          unfolding token_def c cs nm by (simp add: prefix_def)
        then have "sublist (token n) (c # cs)" by (simp add: sublist_Cons_right)
        moreover from pre False have "token n \<noteq> a # as" by auto
        ultimately show ?thesis by simp
      next
        case 2
        from sub [OF n this] show ?thesis by (simp add: sublist_Cons_right)
      qed
    qed
    with f show ?thesis unfolding res by blast
  qed
qed

lemma replace_placeholders_inv:
  assumes "flat s" "\<forall>(k, v) \<in> set items. lbrace \<notin> set v \<and> rbrace \<notin> set v"
  shows "flat (replace_placeholders s items) \<and>
         (\<forall>n. rbrace \<notin> set n \<longrightarrow> sublist (token n) (replace_placeholders s items) \<longrightarrow>
              sublist (token n) s \<and> n \<notin> fst ` set items)"
  using assms
proof (induction items arbitrary: s)
  case Nil
  then show ?case by simp
next
  case (Cons kv items)
  obtain k v where kv: "kv = (k, v)" by (cases kv)
  let ?s = "str_replace (token k) v s"
  from Cons.prems kv have v: "lbrace \<notin> set v" "rbrace \<notin> set v" by auto
  have t: "token k \<noteq> []" "hd (token k) = lbrace" by (simp_all add: token_def)
  from str_replace_step [OF t Cons.prems(1) v]
  have fs: "flat ?s" and
    step: "\<And>n. rbrace \<notin> set n \<Longrightarrow> sublist (token n) ?s \<Longrightarrow>
             sublist (token n) s \<and> token n \<noteq> token k" by auto
  from Cons.prems have "\<forall>(k, v) \<in> set items. lbrace \<notin> set v \<and> rbrace \<notin> set v" by simp
  from Cons.IH [OF fs this]
  have fr: "flat (replace_placeholders ?s items)" and
    ih: "\<And>n. rbrace \<notin> set n \<Longrightarrow> sublist (token n) (replace_placeholders ?s items) \<Longrightarrow>
             sublist (token n) ?s \<and> n \<notin> fst ` set items" by auto
  have "sublist (token n) s \<and> n \<notin> fst ` set (kv # items)"
    if n: "rbrace \<notin> set n" and s: "sublist (token n) (replace_placeholders ?s items)" for n
  proof -
    from ih [OF n s] have 1: "sublist (token n) ?s" and 2: "n \<notin> fst ` set items" by auto
    from step [OF n 1] have "sublist (token n) s" "n \<noteq> k" by auto
    with 2 kv show ?thesis by simp
  qed
  with fr kv show ?case by simp
qed

subsection \<open>Names found and tokens of the text\<close>

lemma sublist_Cons_rightI: "sublist x ys \<Longrightarrow> sublist x (y # ys)"
  by (simp add: sublist_Cons_right)

lemma sublist_prepend: "sublist x ys \<Longrightarrow> sublist x (p @ ys)"
  by (induction p) (auto simp: sublist_Cons_right)

lemma re_findall_sublist:
  "n \<in> set (re_findall s) \<Longrightarrow> sublist (token n) s"
proof (induction s rule: re_findall.induct)
  case 1
  then show ?case by simp
next
  case (2 c cs)
  let ?run = "takeWhile (\<lambda>x. x \<noteq> rbrace) cs"
  let ?rest = "dropWhile (\<lambda>x. x \<noteq> rbrace) cs"
  show ?case
  proof (cases "c = lbrace \<and> ?run \<noteq> [] \<and> ?rest \<noteq> []")
    case True
    then have "rbrace \<in> set cs" by (auto simp: dropWhile_eq_Nil_conv)
    from split_at_rbrace [OF this] have cs: "cs = ?run @ rbrace # tl ?rest" .
    from True "2.prems" consider "n = ?run" | "n \<in> set (re_findall (tl ?rest))" by auto
    then show ?thesis
    proof cases
      case 1
      have "prefix (token ?run) (lbrace # ?run @ rbrace # tl ?rest)"
        by (simp add: token_def prefix_def)
      with cs True 1 have "prefix (token n) (c # cs)" by simp
      then show ?thesis by (simp add: sublist_Cons_right)
    next
      case 2
      from "2.IH"(1) [OF True 2] have "sublist (token n) (tl ?rest)" .
      then have "sublist (token n) ((c # ?run @ [rbrace]) @ tl ?rest)"
        by (rule sublist_prepend)
      with cs show ?thesis by simp
    qed
  next
    case False
    with "2.prems" have "n \<in> set (re_findall cs)" by auto
    from "2.IH"(2) [OF False this] show ?thesis by (rule sublist_Cons_rightI)
  qed
qed

lemma sublist_re_findall:
  "flat s \<Longrightarrow> rbrace \<notin> set n \<Longrightarrow> n \<noteq> [] \<Longrightarrow> sublist (token n) s \<Longrightarrow>
     n \<in> set (re_findall s)"
proof (induction s rule: re_findall.induct)
  case 1
  then show ?case by (simp add: token_def)
next
  case (2 c cs)
  let ?run = "takeWhile (\<lambda>x. x \<noteq> rbrace) cs"
  let ?rest = "dropWhile (\<lambda>x. x \<noteq> rbrace) cs"
  from "2.prems"(4) consider "prefix (token n) (c # cs)" | "sublist (token n) cs"
    by (auto simp: sublist_Cons_right)
  then show ?case
  proof cases
    case 1
    then obtain w where c: "c = lbrace" and cs: "cs = n @ rbrace # w"
      by (auto simp: token_def prefix_def)
    from cs "2.prems"(2) have "?run = n" by (simp add: takeWhile_run)
    moreover from cs have "?rest \<noteq> []" by (auto simp: dropWhile_eq_Nil_conv)
    ultimately show ?thesis using c "2.prems"(3) by simp
  next
    case 2
    show ?thesis
    proof (cases "c = lbrace \<and> ?run \<noteq> [] \<and> ?rest \<noteq> []")
      case True
      then have r: "rbrace \<in> set cs" by (auto simp: dropWhile_eq_Nil_conv)
      from split_at_rbrace [OF this] have cs: "cs = ?run @ rbrace # tl ?rest" .
      from "2.prems"(1) True r have free: "lbrace \<notin> set ?run" by simp
      from "2.prems"(1) have "flat cs" by simp
      with cs have "flat (?run @ rbrace # tl ?rest)" by simp
      with free have ft: "flat (tl ?rest)" by (simp add: flat_append_free)
      from 2 cs have "sublist (lbrace # n @ [rbrace]) (?run @ rbrace # tl ?rest)"
        by (simp add: token_def)
      from sublist_skip [OF this free]
      have "sublist (token n) (tl ?rest)"
        by (simp add: token_def sublist_Cons_right)
      from "2.IH"(1) [OF True ft "2.prems"(2,3) this] True show ?thesis by simp
    next
      case False
      from "2.prems"(1) have "flat cs" by simp
      from "2.IH"(2) [OF False this "2.prems"(2,3) 2] False show ?thesis by auto
    qed
  qed
qed

lemma str_replace_absent:
  "old \<noteq> [] \<Longrightarrow> \<not> sublist old s \<Longrightarrow> str_replace old v s = s"
proof (induction s)
  case Nil
  then show ?case by (cases old) auto
next
  case (Cons c cs)
  then obtain a as where old: "old = a # as" by (cases old) auto
  from Cons.prems(2) have np: "\<not> prefix (a # as) (c # cs)" and ns: "\<not> sublist old cs"
    unfolding old by (auto simp: sublist_Cons_right)
  from Cons.IH [OF Cons.prems(1) ns] have "str_replace (a # as) v cs = cs" by (simp add: old)
  with np show ?case unfolding old by (simp only: str_replace.simps if_False)
qed

lemma replace_placeholders_absent:
  "\<forall>k \<in> fst ` set items. \<not> sublist (token k) s \<Longrightarrow> replace_placeholders s items = s"
proof (induction items)
  case Nil
  then show ?case by simp
next
  case (Cons kv items)
  obtain k v where kv: "kv = (k, v)" by (cases kv)
  have "token k \<noteq> []" by (simp add: token_def)
  moreover from Cons.prems kv have "\<not> sublist (token k) s" by simp
  ultimately have "str_replace (token k) v s = s" by (rule str_replace_absent)
  with Cons kv show ?case by simp
qed

lemma str_replace_keeps:
  assumes "lbrace \<notin> set n" "rbrace \<notin> set n" "lbrace \<notin> set k" "rbrace \<notin> set k" "k \<noteq> n"
    and "old = token k" "sublist (token n) s"
  shows "sublist (token n) (str_replace old v s)"
  using assms(6,7)
proof (induction old v s rule: str_replace.induct)
  case (1 new s)
  then show ?case by (simp add: token_def)
next
  case (2 a as new)
  then show ?case by (simp add: token_def)
next
  case (3 a as new c cs)
  from "3.prems"(1) have a: "a = lbrace" and as: "as = k @ [rbrace]" by (simp_all add: token_def)
  have old: "a # as \<noteq> []" "hd (a # as) = lbrace" using a by simp_all
  show ?case
  proof (cases "prefix (a # as) (c # cs)")
    case True
    let ?rest = "drop (length as) cs"
    have res: "str_replace (a # as) new (c # cs) = new @ str_replace (a # as) new ?rest"
      using True by (simp only: str_replace.simps if_True)
    from True have c: "c = lbrace" and cs: "cs = k @ rbrace # ?rest"
      unfolding a as by (auto simp: prefix_def)
    have "\<not> prefix (token n) (c # cs)"
    proof
      assume "prefix (token n) (c # cs)"
      then have "prefix (n @ [rbrace]) (k @ rbrace # ?rest)"
        using cs by (simp add: token_def)
      from run_unique [OF assms(2) assms(4) this] assms(5) show False by simp
    qed
    with "3.prems"(2) have "sublist (token n) cs" by (simp add: sublist_Cons_right)
    with cs have "sublist (lbrace # n @ [rbrace]) (k @ rbrace # ?rest)" by (simp add: token_def)
    from sublist_skip [OF this assms(3)] have "sublist (token n) ?rest"
      by (simp add: token_def sublist_Cons_right)
    from "3.IH"(1) [OF True "3.prems"(1) this]
    show ?thesis unfolding res by (rule sublist_prepend)
  next
    case False
    have res: "str_replace (a # as) new (c # cs) = c # str_replace (a # as) new cs"
      using False by (simp only: str_replace.simps if_False)
    from "3.prems"(2) consider "prefix (token n) (c # cs)" | "sublist (token n) cs"
      by (auto simp: sublist_Cons_right)
    then show ?thesis
    proof cases
      case 1
      then obtain w where c: "c = lbrace" and cs: "cs = n @ rbrace # w"
        by (auto simp: token_def prefix_def)
      from str_replace_run [OF old assms(1)]
      have "str_replace (a # as) new (n @ rbrace # w) = n @ rbrace # str_replace (a # as) new w" .
      then have "prefix (token n) (c # str_replace (a # as) new cs)"
        unfolding c cs by (simp add: token_def prefix_def)
      then show ?thesis unfolding res by (simp add: sublist_Cons_right)
    next
      case 2
      from "3.IH"(2) [OF False "3.prems"(1) 2]
      show ?thesis unfolding res by (rule sublist_Cons_rightI)
    qed
  qed
qed

lemma replace_placeholders_keeps:
  assumes "lbrace \<notin> set n" "rbrace \<notin> set n"
    and "\<forall>k \<in> fst ` set items. lbrace \<notin> set k \<and> rbrace \<notin> set k"
    and "n \<notin> fst ` set items" "sublist (token n) s"
  shows "sublist (token n) (replace_placeholders s items)"
  using assms(3-5)
proof (induction items arbitrary: s)
  case Nil
  then show ?case by simp
next
  case (Cons kv items)
  obtain k v where kv: "kv = (k, v)" by (cases kv)
  from Cons.prems kv have k: "lbrace \<notin> set k" "rbrace \<notin> set k" "k \<noteq> n" by auto
  from str_replace_keeps [OF assms(1,2) k refl Cons.prems(3)]
  have "sublist (token n) (str_replace (token k) v s)" .
  with Cons kv show ?case by simp
qed

lemma extract_names_flat:
  "\<forall>n \<in> set (extract_placeholders t). lbrace \<notin> set n \<Longrightarrow> flat t"
  by (rule names_flat) (simp add: set_extract_placeholders)

lemma re_findall_Nil_extract: "re_findall s = [] \<Longrightarrow> extract_placeholders s = []"
  by (simp add: extract_placeholders_def)

subsection \<open>Round trip\<close>

text \<open>
  C4, as stated, fails: in the text \<open>{b}{a{b}}\<close> the names are \<open>b\<close> and \<open>a{b\<close>; with the
  values \<open>x\<close> and \<open>y\<close> for them, in that order, the first replacement turns the text into
  \<open>x{ax}\<close>, the second finds nothing, and the result still holds the placeholder \<open>ax\<close>.
\<close>

theorem replace_then_extract_counterexample:
  "extract_placeholders ''{b}{a{b}}'' = [''b'', ''a{b''] \<and>
   brace_free ''x'' \<and> brace_free ''y'' \<and>
   replace_placeholders ''{b}{a{b}}'' [(''b'', ''x''), (''a{b'', ''y'')] = ''x{ax}'' \<and>
   extract_placeholders ''x{ax}'' = [''ax'']"
  by code_simp

text \<open>
  C4, amended: for every text \<open>t\<close> none of whose placeholder names (as returned by
  \<open>extract_placeholders\<close>) contains a \<open>{\<close>, and every mapping \<open>v\<close> whose keys cover all
  these names and whose values contain no \<open>{\<close> or \<open>}\<close>,
  \<open>extract_placeholders (replace_placeholders t v)\<close> is the empty sequence.
\<close>

theorem replace_then_extract_empty:
  assumes "\<forall>n \<in> set (extract_placeholders t). lbrace \<notin> set n"
    and "set (extract_placeholders t) \<subseteq> fst ` set v"
    and "\<forall>(k, x) \<in> set v. brace_free x"
  shows "extract_placeholders (replace_placeholders t v) = []"
proof -
  let ?r = "replace_placeholders t v"
  from assms(1) have ft: "flat t" by (rule extract_names_flat)
  from assms(3) have vs: "\<forall>(k, x) \<in> set v. lbrace \<notin> set x \<and> rbrace \<notin> set x"
    by (auto simp: brace_free_def)
  have "re_findall ?r = []"
  proof (rule ccontr)
    assume "re_findall ?r \<noteq> []"
    then obtain n where n: "n \<in> set (re_findall ?r)" by (cases "re_findall ?r") auto
    from re_findall_names [OF n] have ne: "n \<noteq> []" and nr: "rbrace \<notin> set n" by auto
    from re_findall_sublist [OF n] have "sublist (token n) ?r" .
    with replace_placeholders_inv [OF ft vs] nr
    have st: "sublist (token n) t" and nk: "n \<notin> fst ` set v" by auto
    from sublist_re_findall [OF ft nr ne st] have "n \<in> set (extract_placeholders t)"
      by (simp add: set_extract_placeholders)
    with assms(2) nk show False by auto
  qed
  then show ?thesis by (rule re_findall_Nil_extract)
qed

theorem replace_then_extract_empty_witness:
  "replace_placeholders ''{a}-{b}{a}'' [(''a'', ''1''), (''b'', []), (''c'', ''3'')] = ''1-1'' \<and>
   extract_placeholders (replace_placeholders ''{a}-{b}{a}''
      [(''a'', ''1''), (''b'', []), (''c'', ''3'')]) = []"
proof -
  have e: "extract_placeholders ''{a}-{b}{a}'' = [''a'', ''b'']" by code_simp
  have h1: "\<forall>n \<in> set (extract_placeholders ''{a}-{b}{a}''). lbrace \<notin> set n"
    unfolding e by simp
  have h2: "set (extract_placeholders ''{a}-{b}{a}'')
      \<subseteq> fst ` set [(''a'', ''1''), (''b'', []), (''c'', ''3'')]"
    unfolding e by simp
  have h3: "\<forall>(k, x) \<in> set [(''a'', ''1''), (''b'', []), (''c'', ''3'')]. brace_free x"
    by (simp add: brace_free_def)
  have r: "replace_placeholders ''{a}-{b}{a}'' [(''a'', ''1''), (''b'', []), (''c'', ''3'')] = ''1-1''"
    by code_simp
  from replace_then_extract_empty [OF h1 h2 h3] r show ?thesis by blast
qed

subsection \<open>Idempotence\<close>




subsection \<open>Replacing one name after another and replacing in one pass\<close>

lemma token_at_Some:
  "token_at v s = Some (k, x) \<Longrightarrow> (k, x) \<in> set v \<and> prefix (token k) s"
  by (induction v) (auto split: if_splits)

lemma token_at_cong:
  "\<forall>(k, x) \<in> set v. prefix (token k) s = prefix (token k) s' \<Longrightarrow> token_at v s = token_at v s'"
  by (induction v) auto

lemma token_at_no_lbrace: "c \<noteq> lbrace \<Longrightarrow> token_at v (c # s) = None"
  by (induction v) (auto simp: token_def)

lemma spec_substitute_skip:
  "lbrace \<notin> set m \<Longrightarrow> spec_substitute (m @ s) v = m @ spec_substitute s v"
proof (induction m)
  case Nil
  then show ?case by simp
next
  case (Cons c m)
  then have "c \<noteq> lbrace" by auto
  then have "token_at v (c # m @ s) = None" by (rule token_at_no_lbrace)
  with Cons show ?case by simp
qed

lemma spec_substitute_Nil: "spec_substitute s [] = s"
  by (induction s) simp_all


lemma token_prefix_flat:
  assumes "flat (c # cs)" "rbrace \<notin> set k" "prefix (token k) (c # cs)"
  shows "\<exists>w. c = lbrace \<and> cs = k @ rbrace # w \<and> lbrace \<notin> set k"
proof -
  from assms(3) obtain w where c: "c = lbrace" and cs: "cs = k @ rbrace # w"
    by (auto simp: token_def prefix_def)
  from cs assms(2) have "takeWhile (\<lambda>x. x \<noteq> rbrace) cs = k" by (simp add: takeWhile_run)
  moreover from cs have "rbrace \<in> set cs" by simp
  ultimately have "lbrace \<notin> set k" using assms(1) c by auto
  with c cs show ?thesis by blast
qed

lemma prefix_token_replaced:
  assumes "flat (c # cs)" "rbrace \<notin> set new" "old \<noteq> []" "hd old = lbrace"
    and "rbrace \<notin> set k"
  shows "prefix (token k) (c # str_replace old new cs) = prefix (token k) (c # cs)"
proof
  assume p: "prefix (token k) (c # cs)"
  from token_prefix_flat [OF assms(1,5) p] obtain w where
    c: "c = lbrace" and cs: "cs = k @ rbrace # w" and k: "lbrace \<notin> set k" by blast
  from str_replace_run [OF assms(3,4) k]
  have "str_replace old new (k @ rbrace # w) = k @ rbrace # str_replace old new w" .
  then show "prefix (token k) (c # str_replace old new cs)"
    unfolding c cs by (simp add: token_def prefix_def)
next
  assume p: "prefix (token k) (c # str_replace old new cs)"
  then have c: "c = lbrace" and pr: "prefix (k @ [rbrace]) (str_replace old new cs)"
    by (auto simp: token_def)
  from pr have "rbrace \<in> set (str_replace old new cs)" by (auto simp: prefix_def)
  with set_str_replace [OF assms(3), of new cs] assms(2) have "rbrace \<in> set cs" by auto
  with assms(1) c obtain m w where
    cs: "cs = m @ rbrace # w" and m: "lbrace \<notin> set m" "rbrace \<notin> set m"
    using flat_head_run by blast
  from str_replace_run [OF assms(3,4) m(1)]
  have r: "str_replace old new (m @ rbrace # w) = m @ rbrace # str_replace old new w" .
  with pr cs have "prefix (k @ [rbrace]) (m @ rbrace # str_replace old new w)" by simp
  from run_unique [OF assms(5) m(2) this] have "k = m" .
  then show "prefix (token k) (c # cs)"
    unfolding c cs by (simp add: token_def prefix_def)
qed

lemma spec_substitute_step:
  assumes "lbrace \<notin> set x" "rbrace \<notin> set x"
    and "\<forall>(k', x') \<in> set rest. rbrace \<notin> set k'"
  shows "flat t \<Longrightarrow>
    spec_substitute (str_replace (token k) x t) rest = spec_substitute t ((k, x) # rest)"
proof (induction t rule: measure_induct_rule [where f = length])
  case (less t)
  have old: "token k \<noteq> []" "hd (token k) = lbrace" by (simp_all add: token_def)
  have tk: "token k = lbrace # (k @ [rbrace])" by (simp add: token_def)
  show ?case
  proof (cases t)
    case Nil
    then show ?thesis by (simp add: tk)
  next
    case (Cons c cs)
    from less.prems Cons have fcs: "flat cs" by simp
    show ?thesis
    proof (cases "prefix (token k) (c # cs)")
      case True
      let ?t' = "drop (Suc (length k)) cs"
      have res: "str_replace (token k) x (c # cs) = x @ str_replace (token k) x ?t'"
        using True unfolding tk by (simp only: str_replace.simps if_True) simp
      have "length ?t' < length t" using Cons by simp
      moreover have "flat ?t'" using fcs by (rule flat_drop)
      ultimately have ih: "spec_substitute (str_replace (token k) x ?t') rest =
          spec_substitute ?t' ((k, x) # rest)" by (rule less.IH)
      have "spec_substitute (x @ str_replace (token k) x ?t') rest =
          x @ spec_substitute (str_replace (token k) x ?t') rest"
        using assms(1) by (rule spec_substitute_skip)
      moreover have "spec_substitute (c # cs) ((k, x) # rest) =
          x @ spec_substitute ?t' ((k, x) # rest)"
        using True by simp
      ultimately show ?thesis unfolding Cons res using ih by simp
    next
      case False
      let ?r = "str_replace (token k) x cs"
      have res: "str_replace (token k) x (c # cs) = c # ?r"
        using False unfolding tk by (simp only: str_replace.simps if_False)
      have fl: "flat (c # cs)" using less.prems Cons by simp
      have "\<forall>(k', x') \<in> set rest.
          prefix (token k') (c # ?r) = prefix (token k') (c # cs)"
      proof (clarify)
        fix k' x' assume "(k', x') \<in> set rest"
        with assms(3) have "rbrace \<notin> set k'" by auto
        from prefix_token_replaced [OF fl assms(2) old this]
        show "prefix (token k') (c # ?r) = prefix (token k') (c # cs)" .
      qed
      then have ta: "token_at rest (c # ?r) = token_at rest (c # cs)" by (rule token_at_cong)
      have rhs: "token_at ((k, x) # rest) (c # cs) = token_at rest (c # cs)"
        using False by simp
      show ?thesis
      proof (cases "token_at rest (c # cs)")
        case None
        have "length cs < length t" using Cons by simp
        from less.IH [OF this fcs]
        have "spec_substitute ?r rest = spec_substitute cs ((k, x) # rest)" .
        then show ?thesis
          unfolding Cons res by (simp only: spec_substitute.simps ta rhs None option.case)
      next
        case (Some kx)
        obtain k' x' where kx: "kx = (k', x')" by (cases kx)
        from Some kx token_at_Some have in_rest: "(k', x') \<in> set rest"
          and p: "prefix (token k') (c # cs)" by blast+
        from in_rest assms(3) have rk: "rbrace \<notin> set k'" by auto
        from token_prefix_flat [OF fl rk p] obtain w where
          c: "c = lbrace" and cs: "cs = k' @ rbrace # w" and lk: "lbrace \<notin> set k'" by blast
        from str_replace_run [OF old lk]
        have r: "?r = k' @ rbrace # str_replace (token k) x w" unfolding cs .
        have d1: "drop (Suc (length k')) ?r = str_replace (token k) x w" unfolding r by simp
        have d2: "drop (Suc (length k')) cs = w" unfolding cs by simp
        have "length w < length t" using Cons cs by simp
        moreover have "flat w" using fcs unfolding cs by (simp add: flat_append_free lk)
        ultimately have "spec_substitute (str_replace (token k) x w) rest =
            spec_substitute w ((k, x) # rest)" by (rule less.IH)
        then show ?thesis
          unfolding Cons res
          by (simp only: spec_substitute.simps ta rhs Some kx option.case prod.case d1 d2)
      qed
    qed
  qed
qed

lemma replace_placeholders_spec:
  assumes "\<forall>(k, x) \<in> set v. rbrace \<notin> set k \<and> lbrace \<notin> set x \<and> rbrace \<notin> set x"
  shows "flat t \<Longrightarrow> replace_placeholders t v = spec_substitute t v"
  using assms
proof (induction v arbitrary: t)
  case Nil
  then show ?case by (simp add: spec_substitute_Nil)
next
  case (Cons kx v)
  obtain k x where kx: "kx = (k, x)" by (cases kx)
  from Cons.prems kx have x: "lbrace \<notin> set x" "rbrace \<notin> set x"
    and v: "\<forall>(k, x) \<in> set v. rbrace \<notin> set k \<and> lbrace \<notin> set x \<and> rbrace \<notin> set x"
    by auto
  from v have ks: "\<forall>(k', x') \<in> set v. rbrace \<notin> set k'" by auto
  have t: "token k \<noteq> []" "hd (token k) = lbrace" by (simp_all add: token_def)
  from str_replace_step [OF t Cons.prems(1) x]
  have "flat (str_replace (token k) x t)" by simp
  from Cons.IH [OF this v]
  have "replace_placeholders (str_replace (token k) x t) v =
      spec_substitute (str_replace (token k) x t) v" .
  also have "\<dots> = spec_substitute t ((k, x) # v)"
    using x ks Cons.prems(1) by (rule spec_substitute_step)
  finally show ?case by (simp add: kx)
qed

lemma replace_placeholders_filter:
  assumes "\<forall>(k, x) \<in> set v. rbrace \<notin> set k \<and> lbrace \<notin> set x \<and> rbrace \<notin> set x"
    and "flat s"
    and "\<forall>n. rbrace \<notin> set n \<longrightarrow> sublist (token n) s \<longrightarrow> sublist (token n) t"
  shows "replace_placeholders s v =
         replace_placeholders s (filter (\<lambda>(k, x). sublist (token k) t) v)"
  using assms
proof (induction v arbitrary: s)
  case Nil
  then show ?case by simp
next
  case (Cons kx v)
  obtain k x where kx: "kx = (k, x)" by (cases kx)
  from Cons.prems(1) kx have k: "rbrace \<notin> set k" and x: "lbrace \<notin> set x" "rbrace \<notin> set x"
    and v: "\<forall>(k, x) \<in> set v. rbrace \<notin> set k \<and> lbrace \<notin> set x \<and> rbrace \<notin> set x"
    by auto
  have t: "token k \<noteq> []" "hd (token k) = lbrace" by (simp_all add: token_def)
  show ?case
  proof (cases "sublist (token k) t")
    case True
    let ?s = "str_replace (token k) x s"
    from str_replace_step [OF t Cons.prems(2) x]
    have fs: "flat ?s" and
      sub: "\<forall>n. rbrace \<notin> set n \<longrightarrow> sublist (token n) ?s \<longrightarrow> sublist (token n) s" by auto
    from sub Cons.prems(3)
    have "\<forall>n. rbrace \<notin> set n \<longrightarrow> sublist (token n) ?s \<longrightarrow> sublist (token n) t" by blast
    from Cons.IH [OF v fs this] True show ?thesis by (simp add: kx)
  next
    case False
    with Cons.prems(3) k have "\<not> sublist (token k) s" by blast
    with t(1) have "str_replace (token k) x s = s" by (rule str_replace_absent)
    with Cons.IH [OF v Cons.prems(2,3)] False show ?thesis by (simp add: kx)
  qed
qed

subsection \<open>Mapped and unmapped names\<close>

text \<open>
  C8, as stated, fails. In the text \<open>{a{b}}\<close> the name \<open>a{b\<close> is a placeholder and is not
  mapped, yet mapping \<open>b\<close> to \<open>x\<close> turns the text into \<open>{ax}\<close>, where the token of \<open>a{b\<close> is
  gone. And the name \<open>b\<close> is absent from the text \<open>{a}\<close>, yet with \<open>a\<close> mapped to \<open>{b}\<close> and
  \<open>b\<close> to \<open>z\<close> the output is \<open>z\<close>, where it is \<open>{b}\<close> without the pair of \<open>b\<close>.
\<close>

theorem replace_placeholders_unmapped_counterexample:
  "''a{b'' \<in> set (extract_placeholders ''{a{b}}'') \<and>
   ''a{b'' \<notin> fst ` set [(''b'', ''x'')] \<and>
   replace_placeholders ''{a{b}}'' [(''b'', ''x'')] = ''{ax}'' \<and>
   \<not> sublist (token ''a{b'') ''{ax}'' \<and>
   \<not> sublist (token ''b'') ''{a}'' \<and>
   replace_placeholders ''{a}'' [(''a'', ''{b}''), (''b'', ''z'')] = ''z'' \<and>
   replace_placeholders ''{a}'' [(''a'', ''{b}'')] = ''{b}''"
  by code_simp

text \<open>
  C8, amended, for every text \<open>t\<close> and mapping \<open>v\<close>. When no placeholder name of \<open>t\<close>
  contains a \<open>{\<close>, no key of \<open>v\<close> contains a \<open>}\<close> and no value of \<open>v\<close> contains a brace:
  \<open>replace_placeholders\<close> returns \<open>t\<close> with every literal occurrence of \<open>{name}\<close>, for each
  mapped name, replaced by the value of that name, and everything else as it is; the pairs
  of \<open>v\<close> whose token does not occur in \<open>t\<close> have no effect on the output; and no token of
  a mapped name is left in the output. Under weaker conditions: a placeholder name of \<open>t\<close>
  that contains no \<open>{\<close> and is not mapped stays in the output as \<open>{name}\<close>, when the keys of
  \<open>v\<close> contain no brace; and when no token of a mapped name occurs in \<open>t\<close>, the output is
  \<open>t\<close>.
\<close>

theorem replace_placeholders_mapped_unmapped:
  "((\<forall>n \<in> set (extract_placeholders t). lbrace \<notin> set n) \<and>
    (\<forall>(k, x) \<in> set v. rbrace \<notin> set k \<and> brace_free x) \<longrightarrow>
      replace_placeholders t v = spec_substitute t v \<and>
      replace_placeholders t v =
        replace_placeholders t (filter (\<lambda>(k, x). sublist (token k) t) v) \<and>
      (\<forall>k \<in> fst ` set v. \<not> sublist (token k) (replace_placeholders t v))) \<and>
   (n \<in> set (extract_placeholders t) \<and> lbrace \<notin> set n \<and> n \<notin> fst ` set v \<and>
    (\<forall>k \<in> fst ` set v. brace_free k) \<longrightarrow>
      sublist (token n) (replace_placeholders t v)) \<and>
   ((\<forall>k \<in> fst ` set v. \<not> sublist (token k) t) \<longrightarrow> replace_placeholders t v = t)"
proof (intro conjI impI)
  assume a: "(\<forall>n \<in> set (extract_placeholders t). lbrace \<notin> set n) \<and>
    (\<forall>(k, x) \<in> set v. rbrace \<notin> set k \<and> brace_free x)"
  then have ft: "flat t" by (intro extract_names_flat) simp
  from a have kv: "\<forall>(k, x) \<in> set v. rbrace \<notin> set k \<and> lbrace \<notin> set x \<and> rbrace \<notin> set x"
    by (auto simp: brace_free_def)
  then have vs: "\<forall>(k, x) \<in> set v. lbrace \<notin> set x \<and> rbrace \<notin> set x" by auto
  from kv ft show "replace_placeholders t v = spec_substitute t v"
    by (rule replace_placeholders_spec)
  from kv ft show "replace_placeholders t v =
      replace_placeholders t (filter (\<lambda>(k, x). sublist (token k) t) v)"
    by (rule replace_placeholders_filter) simp
  show "\<forall>k \<in> fst ` set v. \<not> sublist (token k) (replace_placeholders t v)"
  proof (intro ballI notI)
    fix k assume k: "k \<in> fst ` set v" and s: "sublist (token k) (replace_placeholders t v)"
    from k a have "rbrace \<notin> set k" by auto
    with replace_placeholders_inv [OF ft vs] s have "k \<notin> fst ` set v" by blast
    with k show False by simp
  qed
next
  assume a: "n \<in> set (extract_placeholders t) \<and> lbrace \<notin> set n \<and> n \<notin> fst ` set v \<and>
    (\<forall>k \<in> fst ` set v. brace_free k)"
  then have "n \<in> set (re_findall t)" by (simp add: set_extract_placeholders)
  from re_findall_names [OF this] re_findall_sublist [OF this]
  have nr: "rbrace \<notin> set n" and s: "sublist (token n) t" by auto
  from a have ks: "\<forall>k \<in> fst ` set v. lbrace \<notin> set k \<and> rbrace \<notin> set k"
    by (simp add: brace_free_def)
  from a have nl: "lbrace \<notin> set n" and nk: "n \<notin> fst ` set v" by auto
  from replace_placeholders_keeps [OF nl nr ks nk s]
  show "sublist (token n) (replace_placeholders t v)" .
next
  assume "\<forall>k \<in> fst ` set v. \<not> sublist (token k) t"
  then show "replace_placeholders t v = t" by (rule replace_placeholders_absent)
qed

theorem replace_placeholders_mapped_unmapped_witness:
  "replace_placeholders ''{a}-{b}{a}'' [(''a'', ''1''), (''c'', ''z'')] = ''1-{b}1'' \<and>
   spec_substitute ''{a}-{b}{a}'' [(''a'', ''1''), (''c'', ''z'')] = ''1-{b}1'' \<and>
   replace_placeholders ''{a}-{b}{a}'' [(''a'', ''1'')] = ''1-{b}1'' \<and>
   \<not> sublist (token ''a'') (replace_placeholders ''{a}-{b}{a}'' [(''a'', ''1''), (''c'', ''z'')]) \<and>
   \<not> sublist (token ''c'') (replace_placeholders ''{a}-{b}{a}'' [(''a'', ''1''), (''c'', ''z'')]) \<and>
   sublist (token ''b'') (replace_placeholders ''{a}-{b}{a}'' [(''a'', ''1''), (''c'', ''z'')]) \<and>
   replace_placeholders ''{a}-{b}{a}'' [(''c'', ''z'')] = ''{a}-{b}{a}''"
proof -
  let ?t = "''{a}-{b}{a}''"
  let ?v = "[(''a'', ''1''), (''c'', ''z'')]"
  have e: "extract_placeholders ?t = [''a'', ''b'']" by code_simp
  have h1: "\<forall>n \<in> set (extract_placeholders ?t). lbrace \<notin> set n"
    unfolding e by simp
  have h2: "\<forall>(k, x) \<in> set ?v. rbrace \<notin> set k \<and> brace_free x"
    by (simp add: brace_free_def)
  have h3: "''b'' \<in> set (extract_placeholders ?t)" unfolding e by simp
  have h4: "lbrace \<notin> set ''b''" by simp
  have h5: "''b'' \<notin> fst ` set ?v" by simp
  have h6: "\<forall>k \<in> fst ` set ?v. brace_free k"
    by (simp add: brace_free_def)
  have h7: "\<forall>k \<in> fst ` set [(''c'', ''z'')]. \<not> sublist (token k) ?t"
    by code_simp
  have sp: "spec_substitute ?t ?v = ''1-{b}1''" by code_simp
  have fi: "filter (\<lambda>(k, x). sublist (token k) ?t) ?v = [(''a'', ''1'')]" by code_simp
  from replace_placeholders_mapped_unmapped [of ?t ?v "''b''"] h1 h2 h3 h4 h5 h6
  have 1: "replace_placeholders ?t ?v = spec_substitute ?t ?v"
    and 2: "replace_placeholders ?t ?v =
        replace_placeholders ?t (filter (\<lambda>(k, x). sublist (token k) ?t) ?v)"
    and 3: "\<forall>k \<in> fst ` set ?v. \<not> sublist (token k) (replace_placeholders ?t ?v)"
    and 4: "sublist (token ''b'') (replace_placeholders ?t ?v)"
    by blast+
  from replace_placeholders_mapped_unmapped [of ?t "[(''c'', ''z'')]" "''b''"] h7
  have 5: "replace_placeholders ?t [(''c'', ''z'')] = ?t" by blast
  from 1 sp have r: "replace_placeholders ?t ?v = ''1-{b}1''" by simp
  from 2 fi r have f: "replace_placeholders ?t [(''a'', ''1'')] = ''1-{b}1''" by simp
  from 3 have "\<not> sublist (token ''a'') (replace_placeholders ?t ?v)"
    "\<not> sublist (token ''c'') (replace_placeholders ?t ?v)" by simp_all
  with r sp f 4 5 show ?thesis by simp
qed

section \<open>Properties of the parsed template\<close>

subsection \<open>Tokens survive trimming, splitting and joining\<close>

lemma not_isspace_braces:
  "\<not> isspace lbrace" "\<not> isspace rbrace" "\<not> isspace CHR '':''"
  by (simp_all add: isspace_def)

lemma sublist_dropWhile:
  "sublist (c # x) s \<Longrightarrow> \<not> P c \<Longrightarrow> sublist (c # x) (dropWhile P s)"
proof (induction s)
  case Nil
  then show ?case by simp
next
  case (Cons a s)
  then show ?case by (auto simp: sublist_Cons_right)
qed

lemma sublist_str_strip:
  assumes "sublist (token n) s"
  shows "sublist (token n) (str_strip s)"
proof -
  from assms have "sublist (lbrace # n @ [rbrace]) (dropWhile isspace s)"
    unfolding token_def by (rule sublist_dropWhile) (simp add: isspace_def)
  then have "sublist (rev (lbrace # n @ [rbrace])) (rev (dropWhile isspace s))"
    by (simp only: sublist_rev)
  then have "sublist (rbrace # rev n @ [lbrace]) (rev (dropWhile isspace s))" by simp
  then have "sublist (rbrace # rev n @ [lbrace]) (dropWhile isspace (rev (dropWhile isspace s)))"
    by (rule sublist_dropWhile) (simp add: isspace_def)
  then have "sublist (rev (rbrace # rev n @ [lbrace]))
      (rev (dropWhile isspace (rev (dropWhile isspace s))))"
    by (simp only: sublist_rev)
  then show ?thesis by (simp add: token_def str_strip_def)
qed

lemma str_split_nonempty: "str_split sep s \<noteq> []"
  by (induction s) (auto split: list.splits)

lemma hd_str_split: "hd (str_split sep s) = takeWhile (\<lambda>c. c \<noteq> sep) s"
  by (induction s) (auto split: list.splits simp: str_split_nonempty)

lemma prefix_takeWhile:
  "prefix x s \<Longrightarrow> \<forall>c \<in> set x. P c \<Longrightarrow> prefix x (takeWhile P s)"
  by (auto simp: prefix_def takeWhile_append2)

lemma sublist_line:
  "sublist x s \<Longrightarrow> x \<noteq> [] \<Longrightarrow> sep \<notin> set x \<Longrightarrow> \<exists>l \<in> set (str_split sep s). sublist x l"
proof (induction s)
  case Nil
  then show ?case by simp
next
  case (Cons c cs)
  from Cons.prems(1) consider "prefix x (c # cs)" | "sublist x cs"
    by (auto simp: sublist_Cons_right)
  then show ?case
  proof cases
    case 1
    with Cons.prems(2) obtain x' where x: "x = c # x'" and p: "prefix x' cs"
      by (cases x) auto
    with Cons.prems(3) have c: "c \<noteq> sep" and x': "\<forall>a \<in> set x'. a \<noteq> sep" by auto
    obtain l ls where sp: "str_split sep cs = l # ls"
      using str_split_nonempty [of sep cs] by (cases "str_split sep cs") auto
    then have "l = takeWhile (\<lambda>c. c \<noteq> sep) cs" using hd_str_split [of sep cs] by simp
    with prefix_takeWhile [OF p x'] have "prefix x' l" by simp
    then have "sublist x (c # l)" unfolding x by (simp add: sublist_Cons_right)
    with c sp show ?thesis by simp
  next
    case 2
    from Cons.IH [OF 2 Cons.prems(2,3)] obtain l where
      l: "l \<in> set (str_split sep cs)" "sublist x l" by blast
    show ?thesis
    proof (cases "c = sep")
      case True
      with l show ?thesis by auto
    next
      case False
      obtain l0 ls where sp: "str_split sep cs = l0 # ls"
        using str_split_nonempty [of sep cs] by (cases "str_split sep cs") auto
      with l consider "l = l0" | "l \<in> set ls" by auto
      then show ?thesis
      proof cases
        case 1
        with l have "sublist x (c # l0)" by (simp add: sublist_Cons_right)
        with False sp show ?thesis by simp
      next
        case 2
        with False sp l show ?thesis by auto
      qed
    qed
  qed
qed

lemma sublist_str_join:
  "l \<in> set ls \<Longrightarrow> sublist l (str_join sep ls)"
proof (induction sep ls rule: str_join.induct)
  case (1 sep)
  then show ?case by simp
next
  case (2 sep x)
  then show ?case by simp
next
  case (3 sep x y ys)
  from "3.prems" consider "l = x" | "l \<in> set (y # ys)" by auto
  then show ?case
  proof cases
    case 1
    then show ?thesis by simp
  next
    case 2
    from "3.IH" [OF this] have "sublist l (str_join sep (y # ys))" .
    then have "sublist l ((x @ sep) @ str_join sep (y # ys))"
      by (auto simp: sublist_def) (metis append.assoc)
    then show ?thesis by simp
  qed
qed

lemma str_strip_decomp:
  "\<exists>ws1 ws2. s = ws1 @ str_strip s @ ws2 \<and> (\<forall>c \<in> set ws1. isspace c)"
proof -
  let ?d = "dropWhile isspace s"
  have "rev (takeWhile isspace (rev ?d) @ dropWhile isspace (rev ?d)) = rev (rev ?d)"
    by (simp only: takeWhile_dropWhile_id)
  then have "rev (dropWhile isspace (rev ?d)) @ rev (takeWhile isspace (rev ?d)) = ?d"
    by (simp only: rev_append rev_rev_ident)
  then have d: "?d = str_strip s @ rev (takeWhile isspace (rev ?d))"
    by (simp add: str_strip_def)
  have "s = takeWhile isspace s @ ?d" by simp
  with d have "s = takeWhile isspace s @ str_strip s @ rev (takeWhile isspace (rev ?d))"
    by simp
  moreover have "\<forall>c \<in> set (takeWhile isspace s). isspace c"
    by (auto dest: set_takeWhileD)
  ultimately show ?thesis by blast
qed

lemma prefix_map_split:
  "prefix (p @ [x]) (map f s) \<Longrightarrow> \<exists>a c vs. s = a @ c # vs \<and> map f a = p \<and> f c = x"
proof (induction p arbitrary: s)
  case Nil
  show ?case
  proof (cases s)
    case Nil
    with Nil.prems show ?thesis by simp
  next
    case (Cons c vs)
    with Nil.prems have "f c = x" by simp
    with Cons have "s = [] @ c # vs \<and> map f [] = [] \<and> f c = x" by simp
    then show ?thesis by (intro exI)
  qed
next
  case (Cons y p)
  show ?case
  proof (cases s)
    case Nil
    with Cons.prems show ?thesis by simp
  next
    case (Cons c0 s')
    with Cons.prems have y: "f c0 = y" and p: "prefix (p @ [x]) (map f s')" by simp_all
    from Cons.IH [OF p] obtain a c vs where
      1: "s' = a @ c # vs" and 2: "map f a = p" and 3: "f c = x" by (elim exE conjE)
    from Cons 1 2 3 y have "s = (c0 # a) @ c # vs \<and> map f (c0 # a) = y # p \<and> f c = x" by simp
    then show ?thesis by (intro exI)
  qed
qed


lemma lower_char_lbrace: "lower_char lbrace = lbrace"
  by (simp add: lower_char_def)

lemma subject_line_shape:
  assumes "is_subject_line line"
  shows "\<exists>a b. line = a @ CHR '':'' # b \<and> lbrace \<notin> set a"
proof -
  define subj where "subj = ''subject''"
  have ls: "lbrace \<notin> set subj" by (simp add: subj_def)
  have "''subject:'' = subj @ [CHR '':'']" by (simp add: subj_def)
  with assms have "prefix (subj @ [CHR '':'']) (map lower_char (str_strip line))"
    by (simp only: is_subject_line_def str_lower_def)
  from prefix_map_split [OF this] obtain a c vs where
    core: "str_strip line = a @ c # vs" and a: "map lower_char a = subj"
    and lc: "lower_char c = CHR '':''" by blast
  from lc have c: "c = CHR '':''" by (rule lower_char_colon)
  have la: "lbrace \<notin> set a"
  proof
    assume "lbrace \<in> set a"
    then have "lower_char lbrace \<in> lower_char ` set a" by (rule imageI)
    then have "lbrace \<in> set (map lower_char a)" by (simp only: lower_char_lbrace set_map)
    with a ls show False by simp
  qed
  from str_strip_decomp [of line] obtain ws1 ws2 where
    l: "line = ws1 @ str_strip line @ ws2" and ws: "\<forall>c \<in> set ws1. isspace c" by blast
  have "\<not> isspace lbrace" by (simp add: isspace_def)
  with ws have "lbrace \<notin> set ws1" by blast
  with la have "lbrace \<notin> set (ws1 @ a)" by simp
  moreover from l have "line = (ws1 @ a) @ CHR '':'' # (vs @ ws2)"
    unfolding core c by simp
  ultimately show ?thesis by blast
qed

lemma set_takeWhile_stop:
  assumes "\<not> P x"
  shows "set (takeWhile P (ys @ x # zs)) \<subseteq> set ys"
proof (induction ys)
  case Nil
  from assms show ?case by simp
next
  case (Cons y ys)
  show ?case
  proof (cases "P y")
    case True
    with Cons show ?thesis by (simp add: subset_insertI2)
  next
    case False
    then show ?thesis by simp
  qed
qed

lemma sublist_after_first_colon:
  assumes "is_subject_line line" "sublist (token n) line"
  shows "sublist (token n) (after_first_colon line)"
proof -
  let ?pre = "takeWhile (\<lambda>c. c \<noteq> CHR '':'') line"
  let ?post = "dropWhile (\<lambda>c. c \<noteq> CHR '':'') line"
  from subject_line_shape [OF assms(1)] obtain a b where
    l: "line = a @ CHR '':'' # b" and a: "lbrace \<notin> set a" by blast
  have "set (takeWhile (\<lambda>c. c \<noteq> CHR '':'') (a @ CHR '':'' # b)) \<subseteq> set a"
    by (rule set_takeWhile_stop) simp
  with l a have pre: "lbrace \<notin> set ?pre" by auto
  from l have "CHR '':'' \<in> set line" by simp
  then have "?post \<noteq> []" by (simp add: dropWhile_eq_Nil_conv)
  then have post: "?post = CHR '':'' # after_first_colon line"
    using hd_dropWhile [of "\<lambda>c. c \<noteq> CHR '':''" line]
    by (cases ?post) (auto simp: after_first_colon_def)
  have "line = ?pre @ ?post" by simp
  with post have "line = ?pre @ CHR '':'' # after_first_colon line" by simp
  with assms(2) have "sublist (lbrace # n @ [rbrace]) (?pre @ CHR '':'' # after_first_colon line)"
    by (simp add: token_def)
  from sublist_skip [OF this pre] show ?thesis
    by (simp add: token_def sublist_Cons_right)
qed

lemma filter_single:
  "l \<in> set xs \<Longrightarrow> P l \<Longrightarrow> length (filter P xs) \<le> 1 \<Longrightarrow> filter P xs = [l]"
proof -
  assume "l \<in> set xs" "P l" "length (filter P xs) \<le> 1"
  then have "l \<in> set (filter P xs)" by simp
  with \<open>length (filter P xs) \<le> 1\<close> show ?thesis
    by (cases "filter P xs") auto
qed

lemma sublist_appendL: "sublist x a \<Longrightarrow> sublist x (a @ b)"
  by (auto simp: sublist_def) (metis append.assoc)

subsection \<open>Placeholders of the raw text in the subject and the body\<close>

text \<open>
  C5, as stated, fails: the pattern matches across lines and the parser works line by line.
  In the text \<open>x {a\<close>, newline, \<open>Subject: b}\<close> the only placeholder spans both lines; the
  subject is \<open>b}\<close> and the body is \<open>x {a\<close>, and its token is in neither.
\<close>

theorem parsed_template_invariant_counterexample:
  "extract_placeholders ''x {a\<newline>Subject: b}'' = [''a\<newline>Subject: b''] \<and>
   extract_subject_and_body ''x {a\<newline>Subject: b}'' = Inr (''b}'', ''x {a'') \<and>
   \<not> sublist (token ''a\<newline>Subject: b'') (''b}'' @ ''x {a'')"
  by code_simp

text \<open>
  C5, amended: for every raw text with at most one subject line, the parser returns a
  subject and a body, and every name in the placeholder sequence extracted from that text
  that contains no newline appears literally as \<open>{name}\<close> in the concatenation of that
  subject and body.
\<close>

theorem parsed_template_invariant:
  assumes "n \<in> set (extract_placeholders raw)" "newline \<notin> set n"
    and "length (filter is_subject_line (str_split newline raw)) \<le> 1"
  shows "\<exists>subject body. extract_subject_and_body raw = Inr (subject, body) \<and>
           sublist (token n) (subject @ body)"
proof -
  let ?lines = "str_split newline raw"
  let ?subject = "if filter is_subject_line ?lines = [] then []
     else str_strip (after_first_colon (last (filter is_subject_line ?lines)))"
  let ?body = "str_strip (str_join [newline] (filter (\<lambda>l. \<not> is_subject_line l) ?lines))"
  have res: "extract_subject_and_body raw = Inr (?subject, ?body)"
    by (rule extract_subject_and_body_eq)
  from assms(1) have "n \<in> set (re_findall raw)" by (simp add: set_extract_placeholders)
  then have "sublist (token n) raw" by (rule re_findall_sublist)
  moreover have "token n \<noteq> []" by (simp add: token_def)
  moreover from assms(2) have "newline \<notin> set (token n)" by (simp add: token_def)
  ultimately obtain l where l: "l \<in> set ?lines" and sl: "sublist (token n) l"
    using sublist_line by blast
  have "sublist (token n) (?subject @ ?body)"
  proof (cases "is_subject_line l")
    case True
    from filter_single [OF l True assms(3)] have "filter is_subject_line ?lines = [l]" .
    then have "?subject = str_strip (after_first_colon l)" by simp
    moreover from sublist_after_first_colon [OF True sl]
    have "sublist (token n) (str_strip (after_first_colon l))" by (rule sublist_str_strip)
    ultimately have "sublist (token n) ?subject" by simp
    then show ?thesis by (rule sublist_appendL)
  next
    case False
    with l have "l \<in> set (filter (\<lambda>l. \<not> is_subject_line l) ?lines)" by simp
    then have "sublist l (str_join [newline] (filter (\<lambda>l. \<not> is_subject_line l) ?lines))"
      by (rule sublist_str_join)
    with sl have "sublist (token n) (str_join [newline] (filter (\<lambda>l. \<not> is_subject_line l) ?lines))"
      by (rule sublist_order.order_trans)
    then have "sublist (token n) ?body" by (rule sublist_str_strip)
    then show ?thesis by (rule sublist_prepend)
  qed
  with res show ?thesis by blast
qed

theorem parsed_template_invariant_witness:
  "extract_subject_and_body ''Subject: Hi {a}\<newline>Dear {b}'' = Inr (''Hi {a}'', ''Dear {b}'') \<and>
   sublist (token ''a'') (''Hi {a}'' @ ''Dear {b}'') \<and>
   sublist (token ''b'') (''Hi {a}'' @ ''Dear {b}'')"
proof -
  have e: "extract_placeholders ''Subject: Hi {a}\<newline>Dear {b}'' = [''a'', ''b'']" by code_simp
  have r: "extract_subject_and_body ''Subject: Hi {a}\<newline>Dear {b}'' =
      Inr (''Hi {a}'', ''Dear {b}'')" by code_simp
  have h3: "length (filter is_subject_line (str_split newline ''Subject: Hi {a}\<newline>Dear {b}'')) \<le> 1"
    by code_simp
  have a1: "''a'' \<in> set (extract_placeholders ''Subject: Hi {a}\<newline>Dear {b}'')"
    unfolding e by simp
  have b1: "''b'' \<in> set (extract_placeholders ''Subject: Hi {a}\<newline>Dear {b}'')"
    unfolding e by simp
  have a2: "newline \<notin> set ''a''" by simp
  have b2: "newline \<notin> set ''b''" by simp
  from parsed_template_invariant [OF a1 a2 h3] parsed_template_invariant [OF b1 b2 h3] r show ?thesis by auto
qed

end
